theory Spec2Isabelle
  imports Complex_Main "HOL-Library.AList" "HOL-Library.Word"
begin

section \<open>Configuration and data model (src/server.js, lines 26-64)\<close>

text \<open>
  The dashboard variant of the bot is the first program of \<^verbatim>\<open>src/server.js\<close>
  (lines 1-1108). Its \<^verbatim>\<open>CONFIG\<close> object is read by the functions below; the embedding
  passes it as a parameter so that the scenarios of the specification (threshold 3) can
  be stated, and \<open>CONFIG\<close> is the value the source gives it.
\<close>

record config =
  freshWalletThreshold :: nat
  timeWindowMs :: int

definition CONFIG :: config where
  "CONFIG = \<lparr> freshWalletThreshold = 10, timeWindowMs = 24 * 60 * 60 * 1000 \<rparr>"

text \<open>
  An entry of a bucket of \<^verbatim>\<open>betsByOutcome\<close>, as \<^verbatim>\<open>processTrade\<close> pushes it:
  \<^verbatim>\<open>{ wallet, timestamp, txHash, isFresh: true, amount: amountUSDC }\<close>.
  Timestamps are \<^verbatim>\<open>Date.now()\<close> readings (milliseconds). Amounts are JavaScript numbers;
  they are modelled as exact rationals, so the rounding of double arithmetic is left out.
\<close>

record bet =
  wallet :: string
  timestamp :: int
  txHash :: string
  isFresh :: bool
  amount :: rat

text \<open>
  \<^verbatim>\<open>betsByOutcome\<close> is a JavaScript \<^verbatim>\<open>Map\<close>: keys are unique and iterated in insertion
  order, \<^verbatim>\<open>set\<close> on a present key replaces the value in place and on an absent key
  appends, \<^verbatim>\<open>delete\<close> removes the key. That is an association list under
  \<open>AList.update\<close> and \<open>AList.delete\<close>, with \<open>map_of\<close> for \<^verbatim>\<open>get\<close>.
\<close>

type_synonym ledger = "(string \<times> bet list) list"

section \<open>Expiry sweep (src/server.js, lines 86-96)\<close>

text \<open>
  The body of the \<^verbatim>\<open>for ... of betsByOutcome.entries()\<close> loop, for one entry and a
  given cutoff. The loop only ever replaces or deletes the key it is visiting, so
  iterating over the entries as they were when the loop started visits the same
  entries as the live iteration of the source.
\<close>

definition cleanupStep :: "int \<Rightarrow> string \<times> bet list \<Rightarrow> ledger \<Rightarrow> ledger" where
  "cleanupStep cutoff e m =
     (let outcomeId = fst e; bets = snd e;
          filteredBets = filter (\<lambda>bet. timestamp bet > cutoff) bets
      in if length filteredBets = 0 then AList.delete outcomeId m
         else AList.update outcomeId filteredBets m)"

text \<open>\<^verbatim>\<open>cleanupOldBets\<close>; \<open>now\<close> is the reading of \<^verbatim>\<open>Date.now()\<close>.\<close>

definition cleanupOldBets :: "config \<Rightarrow> int \<Rightarrow> ledger \<Rightarrow> ledger" where
  "cleanupOldBets cfg now m =
     (let cutoff = now - timeWindowMs cfg in fold (cleanupStep cutoff) m m)"

text \<open>The entries of a bucket that a sweep with the given cutoff keeps.\<close>

definition liveBets :: "int \<Rightarrow> bet list \<Rightarrow> bet list" where
  "liveBets cutoff bets = filter (\<lambda>bet. \<not> timestamp bet \<le> cutoff) bets"

text \<open>The sweep written in one piece: every bucket filtered, empty buckets dropped.\<close>

definition sweptLedger :: "int \<Rightarrow> ledger \<Rightarrow> ledger" where
  "sweptLedger cutoff m =
     filter (\<lambda>e. snd e \<noteq> []) (map (\<lambda>e. (fst e, liveBets cutoff (snd e))) m)"

section \<open>Strings\<close>

text \<open>
  Wallet addresses, transaction hashes and token ids are ASCII strings (hexadecimal or
  decimal digits). On them \<^verbatim>\<open>String.prototype.toLowerCase\<close> maps the letters A-Z to a-z
  and leaves every other character alone.
\<close>

definition lowerChar :: "char \<Rightarrow> char" where
  "lowerChar c =
     (case map_of (zip ''ABCDEFGHIJKLMNOPQRSTUVWXYZ'' ''abcdefghijklmnopqrstuvwxyz'') c of
        Some l \<Rightarrow> l
      | None \<Rightarrow> c)"

definition toLowerCase :: "string \<Rightarrow> string" where
  "toLowerCase str = map lowerChar str"

text \<open>\<^verbatim>\<open>BigInt.prototype.toString()\<close>: the decimal digits of an unsigned integer.\<close>

definition digitChar :: "nat \<Rightarrow> char" where
  "digitChar n = ''0123456789'' ! n"

fun toString :: "nat \<Rightarrow> string" where
  "toString n =
     (if n < 10 then [digitChar n] else toString (n div 10) @ [digitChar (n mod 10)])"

text \<open>\<^verbatim>\<open>ethers.ZeroAddress\<close>.\<close>

definition ZeroAddress :: string where
  "ZeroAddress = ''0x0000000000000000000000000000000000000000''"

text \<open>
  The question of a market is arbitrary text. The patterns of the content filter have
  no flag \<^verbatim>\<open>u\<close>, so they read it one UTF-16 code unit at a time, and a question is kept
  as the sequence of its code units. \<open>units\<close> gives the code units of an ASCII string.
\<close>

type_synonym codeUnit = "16 word"

type_synonym jsString = "codeUnit list"

definition units :: "string \<Rightarrow> jsString" where
  "units cs = map of_char cs"

text \<open>The letters A-Z to a-z, every other code unit as it is.\<close>

definition lowerUnit :: "codeUnit \<Rightarrow> codeUnit" where
  "lowerUnit c = (if 0x41 \<le> c \<and> c \<le> 0x5A then c + 0x20 else c)"

text \<open>
  \<^verbatim>\<open>String.prototype.toLowerCase\<close> on a question (line 147). The letters A-Z become a-z,
  U+0130 becomes \<^verbatim>\<open>i\<close> followed by U+0307, and U+212A (the Kelvin sign) becomes \<^verbatim>\<open>k\<close>:
  these are the code units whose lowercase form holds an ASCII character. Every other
  code unit that \<^verbatim>\<open>toLowerCase\<close> changes is replaced by one code unit, and both are
  outside ASCII and neither a blank nor a line terminator. The patterns cannot tell
  such a unit from its lowercase form, and the lowercased question is read by the
  patterns only, so these units are left as they are.
\<close>

definition lowerUnits :: "codeUnit \<Rightarrow> jsString" where
  "lowerUnits c =
     (if c = 0x130 then [0x69, 0x307] else if c = 0x212A then [0x6B] else [lowerUnit c])"

definition toLowerCaseUnits :: "jsString \<Rightarrow> jsString" where
  "toLowerCaseUnits str = concat (map lowerUnits str)"

section \<open>Regular expressions of the content filter\<close>

text \<open>
  The twelve patterns of \<^verbatim>\<open>shouldFilterMarket\<close> use literals, alternatives, sequences and
  the repetitions \<^verbatim>\<open>+\<close>, \<^verbatim>\<open>*\<close>, \<^verbatim>\<open>?\<close> of a single character class only. \<open>rests r str\<close>
  lists what can remain of \<open>str\<close> after \<open>r\<close> has matched a prefix of it, so
  \<^verbatim>\<open>r.test(str)\<close> holds when \<open>r\<close> matches at some position of \<open>str\<close>.

  The classes are those of JavaScript. \<^verbatim>\<open>\d\<close> is the ten digits 0-9. \<^verbatim>\<open>\s\<close> is the white
  space and the line terminators of ECMAScript: U+0009, U+000B, U+000C, U+0020, U+00A0,
  U+FEFF, the space separators U+1680, U+2000 to U+200A, U+202F, U+205F and U+3000, and
  the line terminators U+000A, U+000D, U+2028 and U+2029 (U+180E has not been a space
  separator since Unicode 6.3). The dot is every code unit but the four line
  terminators. Literals are compared without regard to the case of
  the letters A-Z, as the flag \<^verbatim>\<open>i\<close> asks: without the flag \<^verbatim>\<open>u\<close>, a code unit outside
  ASCII never matches an ASCII letter.
\<close>

datatype charClass = Digit | Space | SpaceOrDash | ColonOrDigit | AnyChar

definition isDigit :: "codeUnit \<Rightarrow> bool" where
  "isDigit c = (0x30 \<le> c \<and> c \<le> 0x39)"

definition isLineTerminator :: "codeUnit \<Rightarrow> bool" where
  "isLineTerminator c = (c \<in> set [0x0A, 0x0D, 0x2028, 0x2029])"

definition isSpace :: "codeUnit \<Rightarrow> bool" where
  "isSpace c =
     (c \<in> set [0x09, 0x0B, 0x0C, 0x20, 0xA0, 0x1680, 0x202F, 0x205F, 0x3000, 0xFEFF]
      \<or> (0x2000 \<le> c \<and> c \<le> 0x200A)
      \<or> isLineTerminator c)"

fun inClass :: "charClass \<Rightarrow> codeUnit \<Rightarrow> bool" where
  "inClass Digit c = isDigit c"
| "inClass Space c = isSpace c"
| "inClass SpaceOrDash c = (isSpace c \<or> c = of_char CHR ''-'')"
| "inClass ColonOrDigit c = (c = of_char CHR '':'' \<or> isDigit c)"
| "inClass AnyChar c = (\<not> isLineTerminator c)"

datatype regex = Lit string | OneOrMore charClass | ZeroOrMore charClass | Optional charClass
  | Alt "regex list" | Seq "regex list"

fun litRest :: "string \<Rightarrow> jsString \<Rightarrow> jsString option" where
  "litRest [] str = Some str"
| "litRest (p # ps) [] = None"
| "litRest (p # ps) (c # cs) =
     (if lowerUnit (of_char p) = lowerUnit c then litRest ps cs else None)"

fun starRests :: "charClass \<Rightarrow> jsString \<Rightarrow> jsString list" where
  "starRests k [] = [[]]"
| "starRests k (c # cs) = (if inClass k c then starRests k cs @ [c # cs] else [c # cs])"

fun rests :: "regex \<Rightarrow> jsString \<Rightarrow> jsString list"
  and restsSeq :: "regex list \<Rightarrow> jsString \<Rightarrow> jsString list"
  and restsAlt :: "regex list \<Rightarrow> jsString \<Rightarrow> jsString list" where
  "rests (Lit p) str = (case litRest p str of None \<Rightarrow> [] | Some r \<Rightarrow> [r])"
| "rests (ZeroOrMore k) str = starRests k str"
| "rests (OneOrMore k) str =
     (case str of [] \<Rightarrow> [] | c # cs \<Rightarrow> if inClass k c then starRests k cs else [])"
| "rests (Optional k) str =
     (case str of [] \<Rightarrow> [[]] | c # cs \<Rightarrow> if inClass k c then [cs, c # cs] else [c # cs])"
| "rests (Alt rs) str = restsAlt rs str"
| "rests (Seq rs) str = restsSeq rs str"
| "restsSeq [] str = [str]"
| "restsSeq (r # rs) str = concat (map (restsSeq rs) (rests r str))"
| "restsAlt [] str = []"
| "restsAlt (r # rs) str = rests r str @ restsAlt rs str"

fun test :: "regex \<Rightarrow> jsString \<Rightarrow> bool" where
  "test r [] = (rests r [] \<noteq> [])"
| "test r (c # cs) = (rests r (c # cs) \<noteq> [] \<or> test r cs)"

definition cryptoNames :: regex where
  "cryptoNames = Alt [Lit ''bitcoin'', Lit ''btc'', Lit ''ethereum'', Lit ''eth'',
     Lit ''solana'', Lit ''sol'', Lit ''doge'', Lit ''xrp'', Lit ''crypto'']"

definition filterPatterns :: "regex list" where
  "filterPatterns =
    [Seq [OneOrMore Digit, Optional SpaceOrDash, Lit ''min''],
     Seq [OneOrMore Digit, Optional SpaceOrDash, Lit ''minute''],
     Lit ''1-min'',
     Lit ''5-min'',
     Lit ''15-min'',
     Lit ''up or down'',
     Lit ''higher or lower'',
     Lit ''above or below'',
     Seq [Lit ''price'', ZeroOrMore AnyChar, OneOrMore Digit, ZeroOrMore ColonOrDigit, ZeroOrMore Space,
          Alt [Lit ''am'', Lit ''pm'', Lit ''utc'', Lit ''et'', Lit ''pt'']],
     Seq [Lit ''at '', OneOrMore Digit, ZeroOrMore ColonOrDigit, ZeroOrMore Space,
          Alt [Lit ''am'', Lit ''pm'', Lit ''utc'', Lit ''et'', Lit ''pt'']],
     Seq [cryptoNames, ZeroOrMore AnyChar, OneOrMore Digit, ZeroOrMore ColonOrDigit, ZeroOrMore Space,
          Alt [Lit ''am'', Lit ''pm'', Lit ''utc'']],
     Seq [cryptoNames, ZeroOrMore AnyChar,
          Alt [Lit ''up'', Lit ''down'', Lit ''higher'', Lit ''lower'']]]"

section \<open>Errors, environment and state (src/server.js, lines 48-64)\<close>

text \<open>
  A JavaScript exception is a value of \<open>error\<close>. A function that may throw returns
  \<open>Inl (e, s)\<close> when it throws \<open>e\<close> having brought the global state to \<open>s\<close> (what it
  mutated before the throw stays mutated), and \<open>Inr\<close> with its result otherwise.
\<close>

datatype error = RpcError | SyntaxError | TypeError

text \<open>
  One row of the answer of the market metadata endpoint. The three array fields hold
  what \<^verbatim>\<open>JSON.parse(field || '[]')\<close> makes of them: \<open>None\<close> when it throws, the empty
  list when the field is absent. The endpoint is taken to send arrays of strings there.
\<close>

record rawMarket =
  rawQuestion :: "jsString option"
  clobTokenIds :: "string list option"
  outcomes :: "string list option"
  outcomePrices :: "string list option"
  rawSlug :: "string option"
  rawImage :: "string option"
  rawConditionId :: "string option"

datatype fetchResult = FetchFails | NotOk | Rows "rawMarket list"

text \<open>
  What the outside world answers while one trade is processed: the reading of
  \<^verbatim>\<open>Date.now()\<close> (one reading for all the calls made while that trade is processed),
  the answer of \<^verbatim>\<open>provider.getTransactionCount\<close> for each address (\<open>Inl\<close> when the call
  rejects) and the answer of the metadata endpoint for each token id.
\<close>

record obs =
  clock :: int
  getTransactionCount :: "string \<Rightarrow> error + int"
  fetchMarkets :: "string \<Rightarrow> fetchResult"

text \<open>A record of \<^verbatim>\<open>walletCache\<close>: \<^verbatim>\<open>{ isFresh, checkedAt }\<close>.\<close>

record walletRec =
  cachedIsFresh :: bool
  checkedAt :: int

text \<open>
  A record of \<^verbatim>\<open>marketCache\<close>. The price is kept as the text that \<^verbatim>\<open>parseFloat\<close> is
  applied to.
\<close>

record marketInfo =
  question :: jsString
  outcome :: string
  price :: "string option"
  slug :: "string option"
  marketImage :: "string option"
  conditionId :: "string option"

record walletEntry =
  address :: string
  entryTxHash :: string
  entryTimestamp :: int
  entryAmount :: rat

text \<open>
  \<^verbatim>\<open>latestBet\<close> is a number when the alert is created and the ISO rendering of an instant
  (\<^verbatim>\<open>new Date().toISOString()\<close>) after an update.
\<close>

datatype jsTime = Millis int | IsoString int

record alert =
  alertId :: int
  outcomeId :: string
  alertQuestion :: jsString
  alertOutcome :: string
  alertPrice :: "string option"
  alertSlug :: "string option"
  alertImage :: "string option"
  polymarketUrl :: "string option"
  freshWallets :: nat
  totalAmount :: rat
  firstBet :: int
  latestBet :: jsTime
  sampleTx :: string
  wallets :: "walletEntry list"
  alertTimestamp :: int

record statsRec =
  totalTrades :: nat
  freshWalletsDetected :: nat
  alertsTriggered :: nat
  startTime :: int
  lastBlock :: int
  isConnected :: bool

text \<open>What \<^verbatim>\<open>io.emit\<close> sends, with the payload as it is at the time of the call.\<close>

datatype event = NewAlert alert | AlertUpdate alert | Stats statsRec

text \<open>
  The global variables of the program. \<open>emitted\<close> is the sequence of \<^verbatim>\<open>io.emit\<close> calls
  made so far and \<open>queries\<close> the sequence of addresses
  \<^verbatim>\<open>provider.getTransactionCount\<close> has been called with, oldest first.
\<close>

record state =
  betsByOutcome :: ledger
  walletCache :: "(string \<times> walletRec) list"
  alertedOutcomes :: "string set"
  marketCache :: "(string \<times> marketInfo) list"
  stats :: statsRec
  alerts :: "alert list"
  emitted :: "event list"
  queries :: "string list"

definition initialState :: "int \<Rightarrow> state" where
  "initialState t0 =
     \<lparr> betsByOutcome = [], walletCache = [], alertedOutcomes = {}, marketCache = [],
       stats = \<lparr> totalTrades = 0, freshWalletsDetected = 0, alertsTriggered = 0,
                 startTime = t0, lastBlock = 0, isConnected = False \<rparr>,
       alerts = [], emitted = [], queries = [] \<rparr>"

text \<open>The state a result leaves behind, whether the call threw or returned.\<close>

definition stateOf :: "(error \<times> state) + state \<Rightarrow> state" where
  "stateOf r = (case r of Inl (e, s) \<Rightarrow> s | Inr s \<Rightarrow> s)"

section \<open>Wallet freshness (src/server.js, lines 70-84)\<close>

text \<open>The \<^verbatim>\<open>try\<close> block of \<^verbatim>\<open>isWalletFresh\<close>.\<close>

definition isWalletFreshTry :: "obs \<Rightarrow> string \<Rightarrow> state \<Rightarrow> (error \<times> state) + (bool \<times> state)" where
  "isWalletFreshTry ob walletAddress s =
     (let s1 = s\<lparr>queries := queries s @ [walletAddress]\<rparr> in
      case getTransactionCount ob walletAddress of
        Inl e \<Rightarrow> Inl (e, s1)
      | Inr txCount \<Rightarrow>
          let fresh = (txCount \<le> 2) in
          Inr (fresh,
               s1\<lparr>walletCache := AList.update (toLowerCase walletAddress)
                     \<lparr> cachedIsFresh = fresh, checkedAt = clock ob \<rparr> (walletCache s1)\<rparr>))"

text \<open>Line 72: \<^verbatim>\<open>cached && Date.now() - cached.checkedAt < 60 * 60 * 1000\<close>.\<close>

definition cacheValid :: "obs \<Rightarrow> string \<Rightarrow> state \<Rightarrow> bool" where
  "cacheValid ob walletAddress s =
     (case map_of (walletCache s) (toLowerCase walletAddress) of
        None \<Rightarrow> False
      | Some cached \<Rightarrow> clock ob - checkedAt cached < 60 * 60 * 1000)"

definition isWalletFresh :: "obs \<Rightarrow> string \<Rightarrow> state \<Rightarrow> (error \<times> state) + (bool \<times> state)" where
  "isWalletFresh ob walletAddress s =
     (case (cacheValid ob walletAddress s, map_of (walletCache s) (toLowerCase walletAddress)) of
        (True, Some cached) \<Rightarrow> Inr (cachedIsFresh cached, s)
      | _ \<Rightarrow>
         (case isWalletFreshTry ob walletAddress s of
            Inr r \<Rightarrow> Inr r
          | Inl (e, s') \<Rightarrow> Inr (False, s')))"

section \<open>Market metadata (src/server.js, lines 98-173)\<close>

text \<open>\<^verbatim>\<open>Array.prototype.indexOf\<close>: the first position of a value, \<open>None\<close> for \<^verbatim>\<open>-1\<close>.\<close>

fun indexOf :: "'a list \<Rightarrow> 'a \<Rightarrow> nat option" where
  "indexOf [] x = None"
| "indexOf (y # ys) x = (if y = x then Some 0 else map_option Suc (indexOf ys x))"

text \<open>\<^verbatim>\<open>xs[i]\<close>, which is \<^verbatim>\<open>undefined\<close> out of range.\<close>

definition elemAt :: "'a list \<Rightarrow> nat \<Rightarrow> 'a option" where
  "elemAt xs i = (if i < length xs then Some (xs ! i) else None)"

text \<open>\<^verbatim>\<open>v || d\<close> for a string that may be absent: absent and empty strings are falsy.\<close>

definition orDefault :: "'a list option \<Rightarrow> 'a list \<Rightarrow> 'a list" where
  "orDefault v d = (case v of None \<Rightarrow> d | Some x \<Rightarrow> if x = [] then d else x)"

text \<open>Whether an optional string is truthy.\<close>

definition truthy :: "string option \<Rightarrow> bool" where
  "truthy v = (case v of None \<Rightarrow> False | Some x \<Rightarrow> x \<noteq> [])"

text \<open>Lines 108-129: the record built from the first row of the answer.\<close>

definition marketInfoOf :: "string \<Rightarrow> rawMarket \<Rightarrow> error + marketInfo" where
  "marketInfoOf tokenId market =
     (case (clobTokenIds market, outcomes market, outcomePrices market) of
        (Some tokenIds, Some outs, Some prices) \<Rightarrow>
          (let found = (case indexOf tokenIds tokenId of
                          None \<Rightarrow> (''Unknown'', None)
                        | Some tokenIndex \<Rightarrow>
                            (orDefault (elemAt outs tokenIndex) ''Unknown'',
                             if truthy (elemAt prices tokenIndex) then elemAt prices tokenIndex
                             else None))
           in Inr \<lparr> question = orDefault (rawQuestion market) (units ''Unknown Market''),
                    outcome = fst found,
                    price = snd found,
                    slug = rawSlug market,
                    marketImage = rawImage market,
                    conditionId = rawConditionId market \<rparr>)
      | _ \<Rightarrow> Inl SyntaxError)"

definition getMarketInfo :: "obs \<Rightarrow> string \<Rightarrow> state \<Rightarrow> marketInfo option \<times> state" where
  "getMarketInfo ob tokenId s =
     (case map_of (marketCache s) tokenId of
        Some cachedInfo \<Rightarrow> (Some cachedInfo, s)
      | None \<Rightarrow>
         (case fetchMarkets ob tokenId of
            Rows (market # rest) \<Rightarrow>
              (case marketInfoOf tokenId market of
                 Inr info \<Rightarrow>
                   (Some info, s\<lparr>marketCache := AList.update tokenId info (marketCache s)\<rparr>)
               | Inl e \<Rightarrow> (None, s))
          | _ \<Rightarrow> (None, s)))"

definition shouldFilterMarket :: "marketInfo option \<Rightarrow> bool" where
  "shouldFilterMarket info =
     (case info of
        None \<Rightarrow> False
      | Some mi \<Rightarrow>
          if question mi = [] then False
          else list_ex (\<lambda>pattern. test pattern (toLowerCaseUnits (question mi))) filterPatterns)"

section \<open>Cluster detection (src/server.js, lines 175-248)\<close>

text \<open>\<^verbatim>\<open>betsByOutcome.get(outcomeId) || []\<close>.\<close>

definition betsOf :: "ledger \<Rightarrow> string \<Rightarrow> bet list" where
  "betsOf m k = (case map_of m k of None \<Rightarrow> [] | Some bets \<Rightarrow> bets)"

text \<open>\<^verbatim>\<open>freshBets.reduce((sum, b) => sum + (b.amount || 0), 0)\<close>; a zero amount is falsy.\<close>

definition sumAmounts :: "bet list \<Rightarrow> rat" where
  "sumAmounts bets = foldl (\<lambda>total b. total + (if amount b = 0 then 0 else amount b)) 0 bets"

text \<open>
  \<^verbatim>\<open>alerts.find(...)\<close> returns the first alert of the outcome, and the assignments to its
  fields change that element of \<^verbatim>\<open>alerts\<close>.
\<close>

fun updateFirst :: "('a \<Rightarrow> bool) \<Rightarrow> ('a \<Rightarrow> 'a) \<Rightarrow> 'a list \<Rightarrow> 'a list" where
  "updateFirst P f [] = []"
| "updateFirst P f (x # xs) = (if P x then f x # xs else x # updateFirst P f xs)"

definition buildUrl :: "marketInfo option \<Rightarrow> string option" where
  "buildUrl info =
     (case info of
        None \<Rightarrow> None
      | Some mi \<Rightarrow>
          (let byCondition =
                 (case conditionId mi of
                    None \<Rightarrow> None
                  | Some c \<Rightarrow>
                      if c = [] then None else Some (''https://polymarket.com/market/'' @ c))
           in case slug mi of
                None \<Rightarrow> byCondition
              | Some sl \<Rightarrow>
                  if sl = [] then byCondition
                  else Some (''https://polymarket.com/event/'' @ sl)))"

text \<open>Lines 182-184: the fields of an existing alert that an update assigns.\<close>

definition refreshAlert :: "obs \<Rightarrow> bet list \<Rightarrow> alert \<Rightarrow> alert" where
  "refreshAlert ob freshBets a =
     a\<lparr> freshWallets := length freshBets,
        totalAmount := sumAmounts freshBets,
        latestBet := IsoString (clock ob) \<rparr>"

text \<open>
  Lines 217-238: the alert object, from the market information (which may be \<^verbatim>\<open>null\<close>),
  the first fresh bet and all the fresh bets.
\<close>

definition buildAlert :: "obs \<Rightarrow> string \<Rightarrow> marketInfo option \<Rightarrow> bet \<Rightarrow> bet list \<Rightarrow> alert" where
  "buildAlert ob oid info firstFresh freshBets =
     \<lparr> alertId = clock ob,
       outcomeId = oid,
       alertQuestion =
         (case info of None \<Rightarrow> units ''Unknown Market''
          | Some mi \<Rightarrow> orDefault (Some (question mi)) (units ''Unknown Market'')),
       alertOutcome =
         (case info of None \<Rightarrow> ''Unknown''
          | Some mi \<Rightarrow> orDefault (Some (outcome mi)) ''Unknown''),
       alertPrice = (case info of None \<Rightarrow> None | Some mi \<Rightarrow> price mi),
       alertSlug = (case info of None \<Rightarrow> None | Some mi \<Rightarrow> slug mi),
       alertImage = (case info of None \<Rightarrow> None | Some mi \<Rightarrow> marketImage mi),
       polymarketUrl = buildUrl info,
       freshWallets = length freshBets,
       totalAmount = sumAmounts freshBets,
       firstBet = timestamp firstFresh,
       latestBet = Millis (timestamp (last freshBets)),
       sampleTx = txHash firstFresh,
       wallets = map (\<lambda>b. \<lparr> address = wallet b, entryTxHash = txHash b,
                             entryTimestamp = timestamp b, entryAmount = amount b \<rparr>) freshBets,
       alertTimestamp = clock ob \<rparr>"

text \<open>Lines 240-241: \<^verbatim>\<open>alerts.unshift(alert); if (alerts.length > 50) alerts.pop();\<close>\<close>

definition pushAlert :: "alert \<Rightarrow> alert list \<Rightarrow> alert list" where
  "pushAlert a as =
     (let unshifted = a # as in if length unshifted > 50 then butlast unshifted else unshifted)"

definition checkAndAlert :: "config \<Rightarrow> obs \<Rightarrow> string \<Rightarrow> state \<Rightarrow> (error \<times> state) + state" where
  "checkAndAlert cfg ob oid s =
     (if oid \<in> alertedOutcomes s then
        (case find (\<lambda>a. outcomeId a = oid) (alerts s) of
           None \<Rightarrow> Inr s
         | Some existingAlert \<Rightarrow>
             (let bets = betsOf (betsByOutcome s) oid;
                  freshBets = filter isFresh bets
              in Inr (s\<lparr> alerts := updateFirst (\<lambda>a. outcomeId a = oid)
                                     (refreshAlert ob freshBets) (alerts s),
                         emitted := emitted s
                                    @ [AlertUpdate (refreshAlert ob freshBets existingAlert)] \<rparr>)))
      else
        (let bets = betsOf (betsByOutcome s) oid;
             freshBets = filter isFresh bets
         in if length freshBets \<ge> freshWalletThreshold cfg then
              (let resolved = getMarketInfo ob oid s;
                   info = fst resolved; s1 = snd resolved
               in if shouldFilterMarket info then
                    Inr (s1\<lparr> alertedOutcomes := insert oid (alertedOutcomes s1) \<rparr>)
                  else
                    (let s2 = s1\<lparr> alertedOutcomes := insert oid (alertedOutcomes s1),
                                  stats := (stats s1)\<lparr> alertsTriggered :=
                                             alertsTriggered (stats s1) + 1 \<rparr> \<rparr>
                     in case freshBets of
                          [] \<Rightarrow> Inl (TypeError, s2)
                        | firstFresh # others \<Rightarrow>
                           (let newAlert = buildAlert ob oid info firstFresh freshBets
                            in Inr (s2\<lparr> alerts := pushAlert newAlert (alerts s2),
                                       emitted := emitted s2
                                         @ [NewAlert newAlert, Stats (stats s2)] \<rparr>))))
            else Inr s))"

section \<open>Trade processing (src/server.js, lines 250-294)\<close>

text \<open>
  The payload of an \<^verbatim>\<open>OrderFilled\<close> log: the fields of \<^verbatim>\<open>event.args\<close> that
  \<^verbatim>\<open>processTrade\<close> reads, the asset ids and amounts being unsigned integers, and
  \<^verbatim>\<open>event.transactionHash\<close>.
\<close>

record tradeEvent =
  maker :: string
  taker :: string
  makerAssetId :: nat
  takerAssetId :: nat
  makerAmountFilled :: nat
  takerAmountFilled :: nat
  transactionHash :: string

text \<open>
  Lines 287-290: \<^verbatim>\<open>existingBets.find(...)\<close> gives the first entry of the wallet, and its
  amount grows by the amount of the trade.
\<close>

definition sameWallet :: "string \<Rightarrow> bet \<Rightarrow> bool" where
  "sameWallet w b = (toLowerCase (wallet b) = toLowerCase w)"

definition addAmount :: "string \<Rightarrow> rat \<Rightarrow> bet list \<Rightarrow> bet list" where
  "addAmount w amountUSDC bets =
     updateFirst (sameWallet w)
       (\<lambda>existing. existing\<lparr> amount := (if amount existing = 0 then 0 else amount existing)
                                         + amountUSDC \<rparr>) bets"

text \<open>The body of the loop over the two participants of a trade (lines 263-292).\<close>

definition processParticipant ::
  "config \<Rightarrow> obs \<Rightarrow> int \<Rightarrow> string \<Rightarrow> string \<times> string \<times> nat \<Rightarrow> state \<Rightarrow> (error \<times> state) + state" where
  "processParticipant cfg ob ts tx participant s =
     (let w = fst participant; assetId = fst (snd participant);
          amt = snd (snd participant)
      in if w = ZeroAddress then Inr s
         else
          (case isWalletFresh ob w s of
             Inl r \<Rightarrow> Inl r
           | Inr (fresh, s1) \<Rightarrow>
               if fresh then
                 (let s2 = s1\<lparr> stats := (stats s1)\<lparr> freshWalletsDetected :=
                                            freshWalletsDetected (stats s1) + 1 \<rparr> \<rparr>;
                      s3 = (if map_of (betsByOutcome s2) assetId = None
                            then s2\<lparr> betsByOutcome := AList.update assetId [] (betsByOutcome s2) \<rparr>
                            else s2);
                      existingBets = betsOf (betsByOutcome s3) assetId;
                      alreadyTracked = list_ex (sameWallet w) existingBets;
                      amountUSDC = of_nat amt / 1000000
                  in if \<not> alreadyTracked then
                       checkAndAlert cfg ob assetId
                         (s3\<lparr> betsByOutcome := AList.update assetId
                                (existingBets @ [\<lparr> wallet = w, timestamp = ts, txHash = tx,
                                                    isFresh = True, amount = amountUSDC \<rparr>])
                                (betsByOutcome s3) \<rparr>)
                     else
                       Inr (s3\<lparr> betsByOutcome := AList.update assetId
                                   (addAmount w amountUSDC existingBets) (betsByOutcome s3) \<rparr>))
               else Inr s1))"

text \<open>A \<^verbatim>\<open>for ... of\<close> loop whose body may throw: the first throw ends the loop.\<close>

fun forEach :: "('a \<Rightarrow> state \<Rightarrow> (error \<times> state) + state) \<Rightarrow> 'a list \<Rightarrow> state
    \<Rightarrow> (error \<times> state) + state" where
  "forEach body [] s = Inr s"
| "forEach body (x # xs) s =
     (case body x s of Inl r \<Rightarrow> Inl r | Inr s' \<Rightarrow> forEach body xs s')"

definition processTrade :: "config \<Rightarrow> obs \<Rightarrow> tradeEvent \<Rightarrow> state \<Rightarrow> (error \<times> state) + state" where
  "processTrade cfg ob ev s =
     (let tx = transactionHash ev;
          ts = clock ob;
          s0 = s\<lparr> stats := (stats s)\<lparr> totalTrades := totalTrades (stats s) + 1 \<rparr> \<rparr>;
          participants =
            [(maker ev, toString (makerAssetId ev), makerAmountFilled ev),
             (taker ev, toString (takerAssetId ev), takerAmountFilled ev)]
      in forEach (processParticipant cfg ob ts tx) participants s0)"

section \<open>Chain scanning (src/server.js, lines 1065-1098)\<close>

text \<open>
  What the chain answers during one cycle of the polling loop: the head returned by
  \<^verbatim>\<open>provider.getBlockNumber()\<close>, the logs returned by
  \<^verbatim>\<open>exchange.queryFilter('OrderFilled', fromBlock, toBlock)\<close> (\<open>Inl\<close> when a call
  rejects), each log together with what the outside world answers while it is processed,
  and the reading of \<^verbatim>\<open>Date.now()\<close> in \<^verbatim>\<open>cleanupOldBets\<close>.
\<close>

record rpc =
  getBlockNumber :: "error + int"
  queryFilter :: "int \<Rightarrow> int \<Rightarrow> error + (tradeEvent \<times> obs) list"
  sweepClock :: int

definition CHUNK_SIZE :: int where
  "CHUNK_SIZE = 10"

text \<open>Lines 1079-1081: the events of a chunk, one after the other.\<close>

definition processEvents :: "config \<Rightarrow> (tradeEvent \<times> obs) list \<Rightarrow> state \<Rightarrow> (error \<times> state) + state" where
  "processEvents cfg events s = forEach (\<lambda>e. processTrade cfg (snd e) (fst e)) events s"

text \<open>Lines 1074-1085: the loop over the chunks of the range.\<close>

function scanChunks :: "config \<Rightarrow> rpc \<Rightarrow> int \<Rightarrow> int \<Rightarrow> state \<Rightarrow> (error \<times> state) + state" where
  "scanChunks cfg ch fromBlock latestBlock s =
     (if fromBlock \<le> latestBlock then
        (let toBlock = min (fromBlock + CHUNK_SIZE - 1) latestBlock in
         case queryFilter ch fromBlock toBlock of
           Inl e \<Rightarrow> Inl (e, s)
         | Inr events \<Rightarrow>
            (case processEvents cfg events s of
               Inl r \<Rightarrow> Inl r
             | Inr s' \<Rightarrow> scanChunks cfg ch (toBlock + 1) latestBlock s'))
      else Inr s)"
  by pat_completeness auto
termination
  by (relation "measure (\<lambda>(cfg, ch, fromBlock, latestBlock, s). nat (latestBlock + 1 - fromBlock))")
     (auto simp: CHUNK_SIZE_def)

text \<open>
  Lines 1066-1095: one turn of the \<^verbatim>\<open>while (true)\<close> loop, on the global state and the
  local variable \<^verbatim>\<open>lastProcessedBlock\<close>. Whatever is thrown inside the \<^verbatim>\<open>try\<close> block is
  caught and logged; the sweep and the statistics are skipped then.
\<close>

definition pollCycle :: "config \<Rightarrow> rpc \<Rightarrow> state \<times> int \<Rightarrow> state \<times> int" where
  "pollCycle cfg ch st =
     (let s = fst st; lastProcessedBlock = snd st in
      case getBlockNumber ch of
        Inl e \<Rightarrow> (s, lastProcessedBlock)
      | Inr latestBlock \<Rightarrow>
         (let s1 = s\<lparr> stats := (stats s)\<lparr> lastBlock := latestBlock \<rparr> \<rparr>;
              scanned =
                (if latestBlock > lastProcessedBlock then
                   (case scanChunks cfg ch (lastProcessedBlock + 1) latestBlock s1 of
                      Inl r \<Rightarrow> Inl r
                    | Inr s2 \<Rightarrow> Inr (s2, latestBlock))
                 else Inr (s1, lastProcessedBlock))
          in case scanned of
               Inl (e, s') \<Rightarrow> (s', lastProcessedBlock)
             | Inr (s2, cursor) \<Rightarrow>
                 (let s3 = s2\<lparr> betsByOutcome :=
                                 cleanupOldBets cfg (sweepClock ch) (betsByOutcome s2) \<rparr>
                  in (s3\<lparr> emitted := emitted s3 @ [Stats (stats s3)] \<rparr>, cursor))))"

text \<open>The loop, for as many turns as there are answers of the chain.\<close>

definition runCycles :: "config \<Rightarrow> rpc list \<Rightarrow> state \<times> int \<Rightarrow> state \<times> int" where
  "runCycles cfg chs st = fold (pollCycle cfg) chs st"

section \<open>Observing a run, and the conditions of the theorems\<close>

text \<open>Whether an emitted event is a \<^verbatim>\<open>newAlert\<close>, or an \<^verbatim>\<open>alertUpdate\<close>, of a given outcome.\<close>

definition isNewAlertFor :: "string \<Rightarrow> event \<Rightarrow> bool" where
  "isNewAlertFor oid e =
     (case e of NewAlert a \<Rightarrow> outcomeId a = oid | AlertUpdate a \<Rightarrow> False | Stats st \<Rightarrow> False)"

definition isAlertUpdateFor :: "string \<Rightarrow> event \<Rightarrow> bool" where
  "isAlertUpdateFor oid e =
     (case e of NewAlert a \<Rightarrow> False | AlertUpdate a \<Rightarrow> outcomeId a = oid | Stats st \<Rightarrow> False)"

definition newAlertsFor :: "string \<Rightarrow> event list \<Rightarrow> nat" where
  "newAlertsFor oid evs = length (filter (isNewAlertFor oid) evs)"

definition alertUpdatesFor :: "string \<Rightarrow> event list \<Rightarrow> nat" where
  "alertUpdatesFor oid evs = length (filter (isAlertUpdateFor oid) evs)"

text \<open>The verdict \<^verbatim>\<open>isWalletFresh\<close> returns for a wallet in a given state.\<close>

definition freshVerdict :: "obs \<Rightarrow> string \<Rightarrow> state \<Rightarrow> bool" where
  "freshVerdict ob w s =
     (case isWalletFresh ob w s of Inr (fresh, s') \<Rightarrow> fresh | Inl r \<Rightarrow> False)"

text \<open>
  A bet fed to the detector: one execution of the loop body of \<^verbatim>\<open>processTrade\<close> for a
  participant, with what the outside world answers meanwhile, the timestamp and the
  transaction hash of the trade, the wallet and the amount filled.
\<close>

record fedBet =
  betObs :: obs
  betTime :: int
  betTx :: string
  betWallet :: string
  betAmount :: nat

definition feedBets :: "config \<Rightarrow> string \<Rightarrow> fedBet list \<Rightarrow> state \<Rightarrow> (error \<times> state) + state" where
  "feedBets cfg oid bs s =
     forEach (\<lambda>b. processParticipant cfg (betObs b) (betTime b) (betTx b)
                     (betWallet b, oid, betAmount b)) bs s"

text \<open>
  Scanning a range of blocks without chunks, in the words of the specification: the
  events of the whole range are fetched by one query and processed sequentially.
\<close>

definition scanDirect :: "config \<Rightarrow> rpc \<Rightarrow> int \<Rightarrow> int \<Rightarrow> state \<Rightarrow> (error \<times> state) + state" where
  "scanDirect cfg ch fromBlock latestBlock s =
     (if fromBlock \<le> latestBlock then
        (case queryFilter ch fromBlock latestBlock of
           Inl e \<Rightarrow> Inl (e, s)
         | Inr events \<Rightarrow> processEvents cfg events s)
      else Inr s)"

text \<open>One pass after another: the second pass runs on the state the first one returns.\<close>

definition andThen :: "(error \<times> state) + state \<Rightarrow> (state \<Rightarrow> (error \<times> state) + state)
    \<Rightarrow> (error \<times> state) + state" where
  "andThen r next = (case r of Inl failure \<Rightarrow> Inl failure | Inr s \<Rightarrow> next s)"

text \<open>
  A bucket holds at most one entry per wallet, wallets being compared as
  \<^verbatim>\<open>processTrade\<close> compares them (lowercased); a ledger has unique keys, as a \<^verbatim>\<open>Map\<close>
  has, and such buckets only.
\<close>

definition uniqueWallets :: "bet list \<Rightarrow> bool" where
  "uniqueWallets bets = distinct (map (\<lambda>b. toLowerCase (wallet b)) bets)"

definition ledgerOk :: "ledger \<Rightarrow> bool" where
  "ledgerOk m = (distinct (map fst m) \<and> list_all (\<lambda>e. uniqueWallets (snd e)) m)"

text \<open>
  Every observation that the chain delivers with a log, whatever the range queried,
  has a given property.
\<close>

definition answersSatisfy :: "(obs \<Rightarrow> bool) \<Rightarrow> rpc \<Rightarrow> bool" where
  "answersSatisfy Q ch =
     (\<forall>a b. case queryFilter ch a b of
               Inl e \<Rightarrow> True
             | Inr events \<Rightarrow> list_all (\<lambda>e. Q (snd e)) events)"

text \<open>
  The chain answers every range query with the logs of the blocks of the range, in
  block order, each log with the same observation whatever the range queried.
\<close>

definition servesBlocks :: "(int \<Rightarrow> (tradeEvent \<times> obs) list) \<Rightarrow> rpc \<Rightarrow> bool" where
  "servesBlocks blocks ch = (\<forall>a b. queryFilter ch a b = Inr (concat (map blocks [a..b])))"

text \<open>
  The bets of a list are fresh new-wallet bets on an outcome in a state: no wallet is
  the zero address, \<^verbatim>\<open>isWalletFresh\<close> judges each wallet fresh, no wallet has an entry
  on the outcome yet, and the wallets differ from one another (compared lowercased).
\<close>

definition feedable :: "string \<Rightarrow> fedBet list \<Rightarrow> state \<Rightarrow> bool" where
  "feedable oid bs s =
     (list_all (\<lambda>b. betWallet b \<noteq> ZeroAddress
                  \<and> freshVerdict (betObs b) (betWallet b) s
                  \<and> \<not> list_ex (sameWallet (betWallet b)) (betsOf (betsByOutcome s) oid)) bs
      \<and> distinct (map (\<lambda>b. toLowerCase (betWallet b)) bs))"

text \<open>
  Resolved in the given state with what the outside world answers for any bet of the
  list, the market of the outcome is not excluded by the content filter.
\<close>

definition passesFilter :: "string \<Rightarrow> fedBet list \<Rightarrow> state \<Rightarrow> bool" where
  "passesFilter oid bs s =
     list_all (\<lambda>b. \<not> shouldFilterMarket (fst (getMarketInfo (betObs b) oid s))) bs"

text \<open>
  No alert of the outcome exists, and the outcome is marked alerted or every
  observation with the given property resolves it to an excluded market.
\<close>

definition quietFor :: "(obs \<Rightarrow> bool) \<Rightarrow> string \<Rightarrow> state \<Rightarrow> bool" where
  "quietFor Q oid s =
     (list_all (\<lambda>a. outcomeId a \<noteq> oid) (alerts s)
      \<and> (oid \<in> alertedOutcomes s
           \<or> (\<forall>ob. Q ob \<longrightarrow> shouldFilterMarket (fst (getMarketInfo ob oid s)))))"

section \<open>Example data\<close>

text \<open>A bet recorded at \<open>t = 0\<close>, and one recorded an hour before the 24 hours are over.\<close>

definition betAtZero :: bet where
  "betAtZero = \<lparr> wallet = ''0xAa01'', timestamp = 0, txHash = ''0xt1'',
                  isFresh = True, amount = 50 \<rparr>"

definition betLate :: bet where
  "betLate = \<lparr> wallet = ''0xBb02'', timestamp = 82800000, txHash = ''0xt2'',
                isFresh = True, amount = 50 \<rparr>"

definition exLedger :: ledger where
  "exLedger = [(''X'', [betAtZero]), (''Y'', [betAtZero, betLate])]"

text \<open>An outside world whose transaction-count lookup always fails.\<close>

definition failingLookup :: obs where
  "failingLookup = \<lparr> clock = 1000, getTransactionCount = (\<lambda>w. Inl RpcError),
                      fetchMarkets = (\<lambda>k. FetchFails) \<rparr>"

text \<open>
  An outside world at a given time in which every address has sent one transaction
  and the metadata endpoint is unreachable.
\<close>

definition freshLookup :: "int \<Rightarrow> obs" where
  "freshLookup t = \<lparr> clock = t, getTransactionCount = (\<lambda>w. Inr 1),
                      fetchMarkets = (\<lambda>k. FetchFails) \<rparr>"

text \<open>A trade whose maker is a wallet and whose taker is the zero address.\<close>

definition exTrade :: tradeEvent where
  "exTrade = \<lparr> maker = ''0xAb01'', taker = ZeroAddress, makerAssetId = 7, takerAssetId = 0,
                makerAmountFilled = 100000000, takerAmountFilled = 0,
                transactionHash = ''0xt1'' \<rparr>"

text \<open>The state after \<open>exTrade\<close> has been processed once, at time 1000, from the initial state.\<close>

definition afterFirstDelivery :: state where
  "afterFirstDelivery =
     \<lparr> betsByOutcome = [(''7'', [\<lparr> wallet = ''0xAb01'', timestamp = 1000, txHash = ''0xt1'',
                                    isFresh = True, amount = 100 \<rparr>])],
       walletCache = [(''0xab01'', \<lparr> cachedIsFresh = True, checkedAt = 1000 \<rparr>)],
       alertedOutcomes = {}, marketCache = [],
       stats = \<lparr> totalTrades = 1, freshWalletsDetected = 1, alertsTriggered = 0,
                 startTime = 0, lastBlock = 0, isConnected = False \<rparr>,
       alerts = [], emitted = [], queries = [''0xAb01''] \<rparr>"

text \<open>A state in which one wallet has one entry on outcome 7.\<close>

definition exTracked :: state where
  "exTracked = (initialState 0)\<lparr> betsByOutcome :=
      [(''7'', [\<lparr> wallet = ''0xAb01'', timestamp = 1000, txHash = ''0xt1'',
                  isFresh = True, amount = 100 \<rparr>])] \<rparr>"

text \<open>A chain with one trade in block 105 and the same trade again in block 112.\<close>

definition exBlocks :: "int \<Rightarrow> (tradeEvent \<times> obs) list" where
  "exBlocks b = (if b = 105 then [(exTrade, freshLookup 1000)]
                 else if b = 112 then [(exTrade, freshLookup 2000)] else [])"

definition exRpc :: rpc where
  "exRpc = \<lparr> getBlockNumber = Inr 119,
             queryFilter = (\<lambda>a b. Inr (concat (map exBlocks [a..b]))),
             sweepClock = 3000 \<rparr>"

text \<open>A trade whose two participants are the zero address.\<close>

definition zeroTrade :: tradeEvent where
  "zeroTrade = \<lparr> maker = ZeroAddress, taker = ZeroAddress, makerAssetId = 7, takerAssetId = 0,
                  makerAmountFilled = 0, takerAmountFilled = 0, transactionHash = ''0xt0'' \<rparr>"

text \<open>
  A chain with head 119 whose query from block 100 returns one trade and whose other
  queries fail, and one whose other queries return no log.
\<close>

definition secondChunkFails :: rpc where
  "secondChunkFails = \<lparr> getBlockNumber = Inr 119,
       queryFilter = (\<lambda>a b. if a = 100 then Inr [(zeroTrade, failingLookup)] else Inl RpcError),
       sweepClock = 0 \<rparr>"

definition bothChunksServed :: rpc where
  "bothChunksServed = \<lparr> getBlockNumber = Inr 119,
       queryFilter = (\<lambda>a b. if a = 100 then Inr [(zeroTrade, failingLookup)] else Inr []),
       sweepClock = 0 \<rparr>"

text \<open>
  The scenario of the specification: threshold 3, a window of 24 hours, and a market
  whose question is not excluded, resolved for token 7.
\<close>

definition scenarioConfig :: config where
  "scenarioConfig = \<lparr> freshWalletThreshold = 3, timeWindowMs = 24 * 60 * 60 * 1000 \<rparr>"

definition rainMarket :: rawMarket where
  "rainMarket = \<lparr> rawQuestion = Some (units ''Will it rain tomorrow?''),
       clobTokenIds = Some [''7'', ''8''], outcomes = Some [''Yes'', ''No''],
       outcomePrices = Some [''0.4'', ''0.6''], rawSlug = Some ''rain'',
       rawImage = None, rawConditionId = None \<rparr>"

definition rainInfo :: marketInfo where
  "rainInfo = \<lparr> question = units ''Will it rain tomorrow?'', outcome = ''Yes'', price = Some ''0.4'',
       slug = Some ''rain'', marketImage = None, conditionId = None \<rparr>"

definition rainWorld :: "int \<Rightarrow> obs" where
  "rainWorld t = \<lparr> clock = t, getTransactionCount = (\<lambda>w. Inr 1),
       fetchMarkets = (\<lambda>k. Rows [rainMarket]) \<rparr>"

text \<open>Four bets of 50 each, of four wallets, a second apart.\<close>

definition fourBets :: "fedBet list" where
  "fourBets =
     [\<lparr> betObs = rainWorld 1000, betTime = 1000, betTx = ''0xt1'', betWallet = ''0xA1'',
         betAmount = 50000000 \<rparr>,
      \<lparr> betObs = rainWorld 2000, betTime = 2000, betTx = ''0xt2'', betWallet = ''0xA2'',
         betAmount = 50000000 \<rparr>,
      \<lparr> betObs = rainWorld 3000, betTime = 3000, betTx = ''0xt3'', betWallet = ''0xA3'',
         betAmount = 50000000 \<rparr>,
      \<lparr> betObs = rainWorld 4000, betTime = 4000, betTx = ''0xt4'', betWallet = ''0xA4'',
         betAmount = 50000000 \<rparr>]"

text \<open>
  The second scenario of the specification: a market whose question is excluded,
  resolved for token 7; a chain that delivers three trades of three wallets on token 7
  in block 100; and a state with three fresh bets on token 7.
\<close>

definition btcMarket :: rawMarket where
  "btcMarket = \<lparr> rawQuestion = Some (units ''Bitcoin up or down in next 5 minutes?''),
       clobTokenIds = Some [''7'', ''8''], outcomes = Some [''Up'', ''Down''],
       outcomePrices = Some [''0.5'', ''0.5''], rawSlug = Some ''btc-5m'',
       rawImage = None, rawConditionId = None \<rparr>"

definition btcInfo :: marketInfo where
  "btcInfo = \<lparr> question = units ''Bitcoin up or down in next 5 minutes?'', outcome = ''Up'',
       price = Some ''0.5'', slug = Some ''btc-5m'', marketImage = None, conditionId = None \<rparr>"

definition btcWorld :: "int \<Rightarrow> obs" where
  "btcWorld t = \<lparr> clock = t, getTransactionCount = (\<lambda>w. Inr 1),
       fetchMarkets = (\<lambda>k. Rows [btcMarket]) \<rparr>"

definition tradeBy :: "string \<Rightarrow> tradeEvent" where
  "tradeBy w = \<lparr> maker = w, taker = ZeroAddress, makerAssetId = 7, takerAssetId = 0,
       makerAmountFilled = 50000000, takerAmountFilled = 0, transactionHash = ''0xt'' @ w \<rparr>"

definition btcRpc :: rpc where
  "btcRpc = \<lparr> getBlockNumber = Inr 100,
       queryFilter = (\<lambda>a b. if a = 100
          then Inr [(tradeBy ''0xA1'', btcWorld 1000), (tradeBy ''0xA2'', btcWorld 2000),
                    (tradeBy ''0xA3'', btcWorld 3000)]
          else Inr []),
       sweepClock = 4000 \<rparr>"

definition atThreshold :: state where
  "atThreshold = (initialState 0)\<lparr> betsByOutcome :=
     [(''7'', [\<lparr> wallet = ''0xA1'', timestamp = 1000, txHash = ''0xt1'', isFresh = True, amount = 50 \<rparr>,
              \<lparr> wallet = ''0xA2'', timestamp = 2000, txHash = ''0xt2'', isFresh = True, amount = 50 \<rparr>,
              \<lparr> wallet = ''0xA3'', timestamp = 3000, txHash = ''0xt3'', isFresh = True, amount = 50 \<rparr>])] \<rparr>"

text \<open>
  Two questions with code units outside ASCII: a no-break space (U+00A0) between
  \<^verbatim>\<open>5\<close> and \<^verbatim>\<open>min\<close>, which \<^verbatim>\<open>\s\<close> matches, and a line separator (U+2028) between
  \<^verbatim>\<open>price\<close> and \<^verbatim>\<open>5pm\<close>, which the dot does not match.
\<close>

definition nbspQuestion :: jsString where
  "nbspQuestion = units ''Next 5'' @ [0xA0] @ units ''min candle green?''"

definition lineSeparatorQuestion :: jsString where
  "lineSeparatorQuestion = units ''price'' @ [0x2028] @ units ''5pm''"

text \<open>An outside world whose metadata endpoint answers the first of them for token 7.\<close>

definition nbspWorld :: "int \<Rightarrow> obs" where
  "nbspWorld t = \<lparr> clock = t, getTransactionCount = (\<lambda>w. Inr 1),
       fetchMarkets = (\<lambda>k. Rows [btcMarket\<lparr> rawQuestion := Some nbspQuestion \<rparr>]) \<rparr>"

text \<open>
  An outside world whose metadata endpoint answers the second of them for token 7, and
  the four bets made in a given outside world.
\<close>

definition lineSeparatorWorld :: "int \<Rightarrow> obs" where
  "lineSeparatorWorld t = \<lparr> clock = t, getTransactionCount = (\<lambda>w. Inr 1),
       fetchMarkets = (\<lambda>k. Rows [btcMarket\<lparr> rawQuestion := Some lineSeparatorQuestion \<rparr>]) \<rparr>"

definition fourBetsIn :: "(int \<Rightarrow> obs) \<Rightarrow> fedBet list" where
  "fourBetsIn world = map (\<lambda>b. b\<lparr> betObs := world (betTime b) \<rparr>) fourBets"

text \<open>A state in which token 7 is marked alerted and has no alert.\<close>

definition markedQuiet :: state where
  "markedQuiet = (initialState 0)\<lparr> alertedOutcomes := {''7''} \<rparr>"

section \<open>Properties of the expiry sweep\<close>

lemma delete_absent:
  "k \<notin> fst ` set al \<Longrightarrow> AList.delete k al = al"
  by simp

lemma delete_middle:
  assumes "k \<notin> fst ` set p" "k \<notin> fst ` set q"
  shows "AList.delete k (p @ (k, v) # q) = p @ q"
proof -
  have "AList.delete k (p @ (k, v) # q) = AList.delete k p @ AList.delete k q"
    by (simp add: AList.delete_eq)
  then show ?thesis using assms by simp
qed

lemma update_middle:
  assumes "k \<notin> fst ` set p"
  shows "AList.update k v (p @ (k, w) # q) = p @ (k, v) # q"
  using assms by (induction p) auto

lemma cleanup_fold:
  assumes "distinct (map fst (p @ es))"
  shows "fold (cleanupStep c) es (p @ es) = p @ sweptLedger c es"
  using assms
proof (induction es arbitrary: p)
  case Nil
  then show ?case by (simp add: sweptLedger_def)
next
  case (Cons e es)
  obtain k bs where e: "e = (k, bs)" by (cases e)
  from Cons.prems e have kp: "k \<notin> fst ` set p" and kq: "k \<notin> fst ` set es"
    by auto
  have flt: "filter (\<lambda>bet. timestamp bet > c) bs = liveBets c bs"
    by (simp add: liveBets_def not_le)
  show ?case
  proof (cases "liveBets c bs = []")
    case True
    have "cleanupStep c e (p @ e # es) = p @ es"
      using True kp kq by (simp add: cleanupStep_def e flt delete_middle)
    moreover have "distinct (map fst (p @ es))"
      using Cons.prems by simp
    ultimately show ?thesis
      using Cons.IH [of p] True by (simp add: sweptLedger_def e)
  next
    case False
    have "cleanupStep c e (p @ e # es) = (p @ [(k, liveBets c bs)]) @ es"
      using False kp by (simp add: cleanupStep_def e flt update_middle)
    moreover have "distinct (map fst ((p @ [(k, liveBets c bs)]) @ es))"
      using Cons.prems e by simp
    ultimately show ?thesis
      using Cons.IH [of "p @ [(k, liveBets c bs)]"] False
      by (simp add: sweptLedger_def e)
  qed
qed

lemma cleanupOldBets_swept:
  assumes "distinct (map fst m)"
  shows "cleanupOldBets cfg now m = sweptLedger (now - timeWindowMs cfg) m"
  using cleanup_fold [of "[]" m] assms by (simp add: cleanupOldBets_def)

lemma map_of_sweptLedger:
  assumes "distinct (map fst m)"
  shows "map_of (sweptLedger c m) k =
     (case map_of m k of None \<Rightarrow> None
      | Some bets \<Rightarrow> if liveBets c bets = [] then None else Some (liveBets c bets))"
  using assms
proof (induction m)
  case Nil
  then show ?case by (simp add: sweptLedger_def)
next
  case (Cons e m)
  have absent: "map_of (sweptLedger c m) (fst e) = None"
    using Cons.prems
    by (auto simp: sweptLedger_def map_of_eq_None_iff image_iff)
  from Cons show ?case
    using absent by (auto simp: sweptLedger_def split: option.splits)
qed

lemma distinct_sweptLedger:
  "distinct (map fst m) \<Longrightarrow> distinct (map fst (sweptLedger c m))"
proof (induction m)
  case Nil
  then show ?case by (simp add: sweptLedger_def)
next
  case (Cons e m)
  have "fst ` set (sweptLedger c m) \<subseteq> fst ` set m"
    by (force simp: sweptLedger_def)
  with Cons show ?case
    by (auto simp: sweptLedger_def)
qed

lemma sweptLedger_idem:
  "sweptLedger c (sweptLedger c m) = sweptLedger c m"
  by (induction m) (auto simp: sweptLedger_def liveBets_def)

text \<open>
  Claim C5. On a ledger with unique keys, the sweep executed at time \<open>now\<close> removes
  exactly the entries with \<open>timestamp \<le> now - timeWindowMs\<close>, keeps the others in
  their order, and deletes every outcome key whose bucket is left empty. With the 24 hour
  window of \<open>CONFIG\<close>, a bet recorded at \<open>t = 0\<close> is removed by the sweep at
  24 h + 1 s and kept by the sweep at 23 h 59 min.
\<close>

theorem cleanupOldBets_removes_expired:
  assumes "distinct (map fst m)"
  shows "cleanupOldBets cfg now m =
           filter (\<lambda>e. snd e \<noteq> [])
             (map (\<lambda>e. (fst e,
                filter (\<lambda>b. \<not> timestamp b \<le> now - timeWindowMs cfg) (snd e))) m)
         \<and> cleanupOldBets CONFIG (24 * 60 * 60 * 1000 + 1000) [(k, [b\<lparr>timestamp := 0\<rparr>])] = []
         \<and> cleanupOldBets CONFIG (23 * 60 * 60 * 1000 + 59 * 60 * 1000)
               [(k, [b\<lparr>timestamp := 0\<rparr>])] = [(k, [b\<lparr>timestamp := 0\<rparr>])]"
proof -
  have one: "distinct (map fst [(k, [b\<lparr>timestamp := 0\<rparr>])])" by simp
  have "cleanupOldBets cfg now m = sweptLedger (now - timeWindowMs cfg) m"
    using assms by (rule cleanupOldBets_swept)
  moreover have "cleanupOldBets CONFIG (24 * 60 * 60 * 1000 + 1000) [(k, [b\<lparr>timestamp := 0\<rparr>])] = []"
    by (simp add: cleanupOldBets_swept [OF one] sweptLedger_def liveBets_def CONFIG_def)
  moreover have "cleanupOldBets CONFIG (23 * 60 * 60 * 1000 + 59 * 60 * 1000)
      [(k, [b\<lparr>timestamp := 0\<rparr>])] = [(k, [b\<lparr>timestamp := 0\<rparr>])]"
    by (simp add: cleanupOldBets_swept [OF one] sweptLedger_def liveBets_def CONFIG_def)
  ultimately show ?thesis
    by (simp add: sweptLedger_def liveBets_def)
qed

theorem cleanupOldBets_removes_expired_witness:
  "distinct (map fst exLedger)
   \<and> cleanupOldBets CONFIG 86401000 exLedger = [(''Y'', [betLate])]
   \<and> cleanupOldBets CONFIG 86340000 exLedger = exLedger"
proof -
  have d: "distinct (map fst exLedger)"
    by (simp add: exLedger_def)
  have "cleanupOldBets CONFIG 86401000 exLedger = [(''Y'', [betLate])]"
    using cleanupOldBets_removes_expired [OF d, of CONFIG 86401000]
    by (simp add: exLedger_def betAtZero_def betLate_def CONFIG_def)
  moreover have "cleanupOldBets CONFIG 86340000 exLedger = exLedger"
    using cleanupOldBets_removes_expired [OF d, of CONFIG 86340000]
    by (simp add: exLedger_def betAtZero_def betLate_def CONFIG_def)
  ultimately show ?thesis using d by simp
qed

text \<open>
  Claim C6. On a ledger with unique keys and for a fixed time \<open>now\<close>, running the
  sweep twice in succession gives the same ledger as running it once.
\<close>

theorem cleanupOldBets_idempotent:
  assumes "distinct (map fst m)"
  shows "cleanupOldBets cfg now (cleanupOldBets cfg now m) = cleanupOldBets cfg now m"
proof -
  let ?c = "now - timeWindowMs cfg"
  have "distinct (map fst (sweptLedger ?c m))"
    using assms by (rule distinct_sweptLedger)
  then have "cleanupOldBets cfg now (sweptLedger ?c m) = sweptLedger ?c (sweptLedger ?c m)"
    by (rule cleanupOldBets_swept)
  then show ?thesis
    using assms by (simp add: cleanupOldBets_swept sweptLedger_idem)
qed

theorem cleanupOldBets_idempotent_witness:
  "distinct (map fst exLedger)
   \<and> cleanupOldBets CONFIG 86401000 (cleanupOldBets CONFIG 86401000 exLedger)
       = cleanupOldBets CONFIG 86401000 exLedger
   \<and> cleanupOldBets CONFIG 86401000 exLedger \<noteq> exLedger"
proof -
  have d: "distinct (map fst exLedger)"
    by (simp add: exLedger_def)
  have "cleanupOldBets CONFIG 86401000 exLedger \<noteq> exLedger"
    unfolding cleanupOldBets_swept [OF d]
    by (simp add: sweptLedger_def liveBets_def exLedger_def betAtZero_def betLate_def
        CONFIG_def)
  then show ?thesis
    using d cleanupOldBets_idempotent [OF d, of CONFIG 86401000] by simp
qed

section \<open>Properties of the freshness classifier\<close>

declare toString.simps [simp del]

lemma isWalletFresh_hit:
  assumes "cacheValid ob w s"
  shows "\<exists>c. map_of (walletCache s) (toLowerCase w) = Some c
           \<and> isWalletFresh ob w s = Inr (cachedIsFresh c, s)"
  using assms by (auto simp: isWalletFresh_def cacheValid_def split: option.splits)

lemma isWalletFresh_miss:
  assumes "\<not> cacheValid ob w s"
  shows "isWalletFresh ob w s =
     (case getTransactionCount ob w of
        Inl e \<Rightarrow> Inr (False, s\<lparr>queries := queries s @ [w]\<rparr>)
      | Inr txCount \<Rightarrow>
          Inr (txCount \<le> 2,
               s\<lparr>queries := queries s @ [w],
                 walletCache := AList.update (toLowerCase w)
                   \<lparr> cachedIsFresh = (txCount \<le> 2), checkedAt = clock ob \<rparr> (walletCache s)\<rparr>))"
  using assms
  by (simp add: isWalletFresh_def isWalletFreshTry_def Let_def
      split: sum.splits option.splits bool.splits)

lemma isWalletFresh_returns:
  "\<exists>fresh s'. isWalletFresh ob w s = Inr (fresh, s')"
proof (cases "cacheValid ob w s")
  case True
  then show ?thesis using isWalletFresh_hit by blast
next
  case False
  then show ?thesis
    unfolding isWalletFresh_miss [OF False]
    by (cases "getTransactionCount ob w") auto
qed

text \<open>A call changes nothing but the wallet cache and the record of upstream queries.\<close>

lemma isWalletFresh_frame:
  assumes "isWalletFresh ob w s = Inr (fresh, s')"
  shows "betsByOutcome s' = betsByOutcome s" and "alertedOutcomes s' = alertedOutcomes s"
    and "marketCache s' = marketCache s" and "stats s' = stats s"
    and "alerts s' = alerts s" and "emitted s' = emitted s"
proof -
  have "betsByOutcome s' = betsByOutcome s \<and> alertedOutcomes s' = alertedOutcomes s
      \<and> marketCache s' = marketCache s \<and> stats s' = stats s
      \<and> alerts s' = alerts s \<and> emitted s' = emitted s"
  proof (cases "cacheValid ob w s")
    case True
    then obtain c :: walletRec where "isWalletFresh ob w s = Inr (cachedIsFresh c, s)"
      using isWalletFresh_hit by blast
    with assms show ?thesis by simp
  next
    case False
    show ?thesis
      using assms unfolding isWalletFresh_miss [OF False]
      by (cases "getTransactionCount ob w") auto
  qed
  then show "betsByOutcome s' = betsByOutcome s" and "alertedOutcomes s' = alertedOutcomes s"
    and "marketCache s' = marketCache s" and "stats s' = stats s"
    and "alerts s' = alerts s" and "emitted s' = emitted s"
    by simp_all
qed

text \<open>A call leaves the cache records of all other addresses as they are.\<close>

lemma isWalletFresh_cache_other:
  assumes "isWalletFresh ob w s = Inr (fresh, s')" and "k \<noteq> toLowerCase w"
  shows "map_of (walletCache s') k = map_of (walletCache s) k"
proof (cases "cacheValid ob w s")
  case True
  then obtain c :: walletRec where "isWalletFresh ob w s = Inr (cachedIsFresh c, s)"
    using isWalletFresh_hit by blast
  with assms show ?thesis by simp
next
  case False
  show ?thesis
    using assms unfolding isWalletFresh_miss [OF False]
    by (cases "getTransactionCount ob w") (auto simp: update_conv')
qed

section \<open>Properties of detection and trade processing\<close>

lemma betsOf_update_same: "betsOf (AList.update k v m) k = v"
  by (simp add: betsOf_def update_conv')

lemma betsOf_update_other: "k' \<noteq> k \<Longrightarrow> betsOf (AList.update k v m) k' = betsOf m k'"
  by (simp add: betsOf_def update_conv')

lemma getMarketInfo_frame:
  "betsByOutcome (snd (getMarketInfo ob k s)) = betsByOutcome s"
  "walletCache (snd (getMarketInfo ob k s)) = walletCache s"
  "alertedOutcomes (snd (getMarketInfo ob k s)) = alertedOutcomes s"
  "stats (snd (getMarketInfo ob k s)) = stats s"
  "alerts (snd (getMarketInfo ob k s)) = alerts s"
  "emitted (snd (getMarketInfo ob k s)) = emitted s"
  "queries (snd (getMarketInfo ob k s)) = queries s"
  by (simp_all add: getMarketInfo_def
      split: option.splits fetchResult.splits list.splits sum.splits)

lemma checkAndAlert_nonempty_returns:
  assumes "filter isFresh (betsOf (betsByOutcome s) k) \<noteq> []"
  shows "\<exists>s'. checkAndAlert cfg ob k s = Inr s'"
  using assms
  by (auto simp: checkAndAlert_def Let_def split: option.splits list.splits)

lemma processParticipant_returns:
  "\<exists>s'. processParticipant cfg ob ts tx p s = Inr s'"
proof -
  obtain fresh s1 where f: "isWalletFresh ob (fst p) s = Inr (fresh, s1)"
    using isWalletFresh_returns by blast
  show ?thesis
    unfolding processParticipant_def Let_def
    using f by (auto intro!: checkAndAlert_nonempty_returns simp: betsOf_update_same)
qed

lemma processTrade_returns:
  "\<exists>s'. processTrade cfg ob ev s = Inr s'"
proof -
  let ?s0 = "s\<lparr> stats := (stats s)\<lparr> totalTrades := totalTrades (stats s) + 1 \<rparr> \<rparr>"
  obtain s1 where 1: "processParticipant cfg ob (clock ob) (transactionHash ev)
      (maker ev, toString (makerAssetId ev), makerAmountFilled ev) ?s0 = Inr s1"
    using processParticipant_returns by blast
  obtain s2 where 2: "processParticipant cfg ob (clock ob) (transactionHash ev)
      (taker ev, toString (takerAssetId ev), takerAmountFilled ev) s1 = Inr s2"
    using processParticipant_returns by blast
  show ?thesis
    using 1 2 by (simp add: processTrade_def Let_def)
qed

text \<open>
  Claim C7. \<^verbatim>\<open>isWalletFresh\<close> always returns a verdict and never throws; when there
  is no valid cached record and the transaction-count lookup fails, the verdict is
  \<open>False\<close> (nothing is cached); and \<^verbatim>\<open>processTrade\<close> returns normally whatever the
  lookups answer.
\<close>

theorem isWalletFresh_never_throws:
  "(\<exists>fresh s'. isWalletFresh ob w s = Inr (fresh, s'))
   \<and> (\<not> cacheValid ob w s \<and> getTransactionCount ob w = Inl e
        \<longrightarrow> isWalletFresh ob w s = Inr (False, s\<lparr>queries := queries s @ [w]\<rparr>))
   \<and> (\<exists>s'. processTrade cfg ob ev s = Inr s')"
proof -
  have "\<not> cacheValid ob w s \<and> getTransactionCount ob w = Inl e
        \<longrightarrow> isWalletFresh ob w s = Inr (False, s\<lparr>queries := queries s @ [w]\<rparr>)"
    by (simp add: isWalletFresh_miss)
  then show ?thesis
    using isWalletFresh_returns [of ob w s] processTrade_returns [of cfg ob ev s] by blast
qed

theorem isWalletFresh_never_throws_witness:
  "\<not> cacheValid failingLookup ''0xAb01'' (initialState 0)
   \<and> getTransactionCount failingLookup ''0xAb01'' = Inl RpcError
   \<and> isWalletFresh failingLookup ''0xAb01'' (initialState 0)
       = Inr (False, (initialState 0)\<lparr>queries := [''0xAb01'']\<rparr>)
   \<and> (\<exists>s'. processTrade CONFIG failingLookup exTrade (initialState 0) = Inr s')"
proof -
  have a: "\<not> cacheValid failingLookup ''0xAb01'' (initialState 0)"
    by (simp add: cacheValid_def initialState_def)
  have b: "getTransactionCount failingLookup ''0xAb01'' = Inl RpcError"
    by (simp add: failingLookup_def)
  have c: "queries (initialState 0) = []"
    by (simp add: initialState_def)
  show ?thesis
    using a b c
      isWalletFresh_never_throws [of failingLookup "''0xAb01''" "initialState 0" RpcError
        CONFIG exTrade]
    by simp
qed

text \<open>
  Claim C8. A call made while the cached record of the lowercased address satisfies
  \<open>now - checkedAt < 1 hour\<close> returns the cached verdict and leaves the state as it
  is, so the upstream source is not queried. When there is no valid cached record and
  the lookup answers a count, the verdict is \<open>count \<le> 2\<close>, the lookup is recorded
  once, and the verdict is written to the cache under the lowercased address with the
  time of the call; a second call for the same address in any letter case, made less
  than an hour later, returns the same verdict without a further query.
\<close>

theorem isWalletFresh_cached_within_ttl:
  "(cacheValid ob w s \<longrightarrow>
      (\<exists>c. map_of (walletCache s) (toLowerCase w) = Some c
           \<and> isWalletFresh ob w s = Inr (cachedIsFresh c, s)))
   \<and> (\<not> cacheValid ob w s \<and> getTransactionCount ob w = Inr n \<longrightarrow>
        isWalletFresh ob w s =
          Inr (n \<le> 2,
               s\<lparr>queries := queries s @ [w],
                 walletCache := AList.update (toLowerCase w)
                   \<lparr> cachedIsFresh = (n \<le> 2), checkedAt = clock ob \<rparr> (walletCache s)\<rparr>))
   \<and> (\<not> cacheValid ob w s \<and> getTransactionCount ob w = Inr n
        \<and> toLowerCase w' = toLowerCase w \<and> clock ob' - clock ob < 60 * 60 * 1000 \<longrightarrow>
        (\<exists>s1. isWalletFresh ob w s = Inr (n \<le> 2, s1)
             \<and> queries s1 = queries s @ [w]
             \<and> isWalletFresh ob' w' s1 = Inr (n \<le> 2, s1)))"
proof -
  have hit: "cacheValid ob w s \<longrightarrow>
      (\<exists>c. map_of (walletCache s) (toLowerCase w) = Some c
           \<and> isWalletFresh ob w s = Inr (cachedIsFresh c, s))"
    using isWalletFresh_hit by blast
  have miss: "\<not> cacheValid ob w s \<and> getTransactionCount ob w = Inr n \<longrightarrow>
        isWalletFresh ob w s =
          Inr (n \<le> 2,
               s\<lparr>queries := queries s @ [w],
                 walletCache := AList.update (toLowerCase w)
                   \<lparr> cachedIsFresh = (n \<le> 2), checkedAt = clock ob \<rparr> (walletCache s)\<rparr>)"
    by (simp add: isWalletFresh_miss)
  have again: "\<exists>s1. isWalletFresh ob w s = Inr (n \<le> 2, s1)
             \<and> queries s1 = queries s @ [w]
             \<and> isWalletFresh ob' w' s1 = Inr (n \<le> 2, s1)"
    if h: "\<not> cacheValid ob w s" "getTransactionCount ob w = Inr n"
      "toLowerCase w' = toLowerCase w" "clock ob' - clock ob < 60 * 60 * 1000"
  proof -
    let ?s1 = "s\<lparr>queries := queries s @ [w],
                 walletCache := AList.update (toLowerCase w)
                   \<lparr> cachedIsFresh = (n \<le> 2), checkedAt = clock ob \<rparr> (walletCache s)\<rparr>"
    have first: "isWalletFresh ob w s = Inr (n \<le> 2, ?s1)"
      using h miss by simp
    have valid: "cacheValid ob' w' ?s1"
      using h by (simp add: cacheValid_def update_conv')
    have "isWalletFresh ob' w' ?s1 = Inr (n \<le> 2, ?s1)"
      using isWalletFresh_hit [OF valid] h by (auto simp: update_conv')
    with first show ?thesis by auto
  qed
  show ?thesis using hit miss again by blast
qed

theorem isWalletFresh_cached_within_ttl_witness:
  "\<not> cacheValid (freshLookup 1000) ''0xAb01'' (initialState 0)
   \<and> getTransactionCount (freshLookup 1000) ''0xAb01'' = Inr 1
   \<and> toLowerCase ''0xAB01'' = toLowerCase ''0xAb01''
   \<and> clock (freshLookup 3600999) - clock (freshLookup 1000) < 60 * 60 * 1000
   \<and> (\<exists>s1. isWalletFresh (freshLookup 1000) ''0xAb01'' (initialState 0) = Inr (True, s1)
          \<and> queries s1 = [''0xAb01'']
          \<and> cacheValid (freshLookup 3600999) ''0xAB01'' s1
          \<and> isWalletFresh (freshLookup 3600999) ''0xAB01'' s1 = Inr (True, s1))"
proof -
  have a: "\<not> cacheValid (freshLookup 1000) ''0xAb01'' (initialState 0)"
    by (simp add: cacheValid_def initialState_def)
  have b: "getTransactionCount (freshLookup 1000) ''0xAb01'' = Inr 1"
    by (simp add: freshLookup_def)
  have c: "toLowerCase ''0xAB01'' = toLowerCase ''0xAb01''"
    by (simp add: toLowerCase_def lowerChar_def)
  have d: "clock (freshLookup 3600999) - clock (freshLookup 1000) < 60 * 60 * 1000"
    by (simp add: freshLookup_def)
  have q: "queries (initialState 0) = []"
    by (simp add: initialState_def)
  let ?s1 = "(initialState 0)\<lparr>queries := [''0xAb01''],
      walletCache := AList.update (toLowerCase ''0xAb01'')
        \<lparr> cachedIsFresh = True, checkedAt = 1000 \<rparr> (walletCache (initialState 0))\<rparr>"
  have first: "isWalletFresh (freshLookup 1000) ''0xAb01'' (initialState 0) = Inr (True, ?s1)"
    using a b q by (simp add: isWalletFresh_miss freshLookup_def)
  have "\<exists>s1. isWalletFresh (freshLookup 1000) ''0xAb01'' (initialState 0) = Inr (1 \<le> (2::int), s1)
          \<and> queries s1 = queries (initialState 0) @ [''0xAb01'']
          \<and> isWalletFresh (freshLookup 3600999) ''0xAB01'' s1 = Inr (1 \<le> (2::int), s1)"
    using isWalletFresh_cached_within_ttl
      [of "freshLookup 1000" "''0xAb01''" "initialState 0" 1 "''0xAB01''" "freshLookup 3600999"]
      a b c d
    by blast
  then have second: "isWalletFresh (freshLookup 3600999) ''0xAB01'' ?s1 = Inr (True, ?s1)"
    using first by auto
  have "cacheValid (freshLookup 3600999) ''0xAB01'' ?s1"
    using c by (simp add: cacheValid_def freshLookup_def update_conv')
  with a b c d first second show ?thesis by auto
qed

section \<open>Lifting a relation between states through the loops\<close>

lemma forEach_lift:
  assumes refl: "\<And>s. R s s"
    and trans: "\<And>a b c. R a b \<Longrightarrow> R b c \<Longrightarrow> R a c"
    and step: "\<And>x s. x \<in> set xs \<Longrightarrow> R s (stateOf (body x s))"
  shows "R s (stateOf (forEach body xs s))"
  using step
proof (induction xs arbitrary: s)
  case Nil
  then show ?case by (simp add: stateOf_def refl)
next
  case (Cons x xs)
  have first: "R s (stateOf (body x s))"
    using Cons.prems by simp
  show ?case
  proof (cases "body x s")
    case (Inl r)
    with first show ?thesis by simp
  next
    case (Inr s')
    have "R s' (stateOf (forEach body xs s'))"
      using Cons.IH Cons.prems by simp
    with first Inr show ?thesis
      using trans [of s s' "stateOf (forEach body xs s')"] by (simp add: stateOf_def)
  qed
qed

lemma processEvents_lift:
  assumes refl: "\<And>s. R s s"
    and trans: "\<And>a b c. R a b \<Longrightarrow> R b c \<Longrightarrow> R a c"
    and trade: "\<And>ob ev s. Q ob \<Longrightarrow> R s (stateOf (processTrade cfg ob ev s))"
    and obs: "list_all (\<lambda>e. Q (snd e)) events"
  shows "R s (stateOf (processEvents cfg events s))"
  unfolding processEvents_def
proof (rule forEach_lift [where R = R])
  show "R s s" for s by (rule refl)
  show "R a b \<Longrightarrow> R b c \<Longrightarrow> R a c" for a b c by (rule trans)
  show "R s (stateOf (processTrade cfg (snd x) (fst x) s))" if "x \<in> set events" for x s
    using that obs trade by (simp add: list_all_iff)
qed

declare scanChunks.simps [simp del]

lemma answersSatisfyD:
  assumes "answersSatisfy Q ch" and "queryFilter ch a b = Inr events"
  shows "list_all (\<lambda>e. Q (snd e)) events"
  using assms(1) [unfolded answersSatisfy_def, rule_format, of a b] assms(2) by simp

lemma scanChunks_lift:
  assumes refl: "\<And>s. R s s"
    and trans: "\<And>a b c. R a b \<Longrightarrow> R b c \<Longrightarrow> R a c"
    and trade: "\<And>ob ev s. Q ob \<Longrightarrow> R s (stateOf (processTrade cfg ob ev s))"
    and obs: "answersSatisfy Q ch"
  shows "R s (stateOf (scanChunks cfg ch lo hi s))"
  using trade obs
proof (induction cfg ch lo hi s rule: scanChunks.induct)
  case (1 cfg ch fromBlock latestBlock s)
  note trade = "1.prems"(1) and obs = "1.prems"(2)
  show ?case
  proof (cases "fromBlock \<le> latestBlock")
    case False
    then show ?thesis by (simp add: scanChunks.simps stateOf_def refl)
  next
    case True
    let ?to = "min (fromBlock + CHUNK_SIZE - 1) latestBlock"
    show ?thesis
    proof (cases "queryFilter ch fromBlock ?to")
      case (Inl e)
      with True show ?thesis
        by (subst scanChunks.simps) (simp add: stateOf_def refl)
    next
      case (Inr events)
      have "list_all (\<lambda>e. Q (snd e)) events"
        using obs Inr by (rule answersSatisfyD)
      then have ev: "R s (stateOf (processEvents cfg events s))"
        using processEvents_lift [where R = R and Q = Q] refl trans trade by blast
      show ?thesis
      proof (cases "processEvents cfg events s")
        case (Inl r)
        with True Inr ev show ?thesis
          by (subst scanChunks.simps) simp
      next
        case Inr2: (Inr s')
        have rest: "R s' (stateOf (scanChunks cfg ch (?to + 1) latestBlock s'))"
          using "1.IH" [OF True HOL.refl Inr Inr2 trade obs] .
        have "R s s'" using ev Inr2 by (simp add: stateOf_def)
        then have "R s (stateOf (scanChunks cfg ch (?to + 1) latestBlock s'))"
          using rest trans by blast
        then show ?thesis
          using True Inr Inr2 by (subst scanChunks.simps) simp
      qed
    qed
  qed
qed

lemma pollCycle_lift:
  assumes refl: "\<And>s. R s s"
    and trans: "\<And>a b c. R a b \<Longrightarrow> R b c \<Longrightarrow> R a c"
    and trade: "\<And>ob ev s. Q ob \<Longrightarrow> R s (stateOf (processTrade cfg ob ev s))"
    and head: "\<And>s b. R s (s\<lparr> stats := (stats s)\<lparr> lastBlock := b \<rparr> \<rparr>)"
    and sweep: "\<And>s now. R s (s\<lparr> betsByOutcome := cleanupOldBets cfg now (betsByOutcome s) \<rparr>)"
    and emit: "\<And>s. R s (s\<lparr> emitted := emitted s @ [Stats (stats s)] \<rparr>)"
    and obs: "answersSatisfy Q ch"
  shows "R s (fst (pollCycle cfg ch (s, c)))"
proof (cases "getBlockNumber ch")
  case (Inl e)
  then show ?thesis by (simp add: pollCycle_def refl)
next
  case (Inr latestBlock)
  let ?s1 = "s\<lparr> stats := (stats s)\<lparr> lastBlock := latestBlock \<rparr> \<rparr>"
  have h: "R s ?s1" by (rule head)
  have finish: "R s (fst (let s3 = s2\<lparr> betsByOutcome :=
                       cleanupOldBets cfg (sweepClock ch) (betsByOutcome s2) \<rparr>
                 in (s3\<lparr> emitted := emitted s3 @ [Stats (stats s3)] \<rparr>, k)))"
    if "R s s2" for s2 and k :: int
  proof -
    let ?s3 = "s2\<lparr> betsByOutcome := cleanupOldBets cfg (sweepClock ch) (betsByOutcome s2) \<rparr>"
    have "R s2 ?s3" by (rule sweep)
    moreover have "R ?s3 (?s3\<lparr> emitted := emitted ?s3 @ [Stats (stats ?s3)] \<rparr>)" by (rule emit)
    ultimately have "R s (?s3\<lparr> emitted := emitted ?s3 @ [Stats (stats ?s3)] \<rparr>)"
      using that trans by blast
    then show ?thesis by (simp add: Let_def)
  qed
  show ?thesis
  proof (cases "latestBlock > c")
    case False
    with Inr show ?thesis
      using finish [OF h, of c] by (simp add: pollCycle_def Let_def)
  next
    case True
    have scanned: "R ?s1 (stateOf (scanChunks cfg ch (c + 1) latestBlock ?s1))"
      using scanChunks_lift [where R = R and Q = Q] refl trans trade obs by blast
    show ?thesis
    proof (cases "scanChunks cfg ch (c + 1) latestBlock ?s1")
      case (Inl r)
      obtain e s' where r: "r = (e, s')" by (cases r)
      have "R ?s1 s'" using scanned Inl r by (simp add: stateOf_def)
      then have "R s s'" using h trans by blast
      with Inr True Inl r show ?thesis
        by (simp add: pollCycle_def Let_def)
    next
      case Inr2: (Inr s2)
      have "R ?s1 s2" using scanned Inr2 by (simp add: stateOf_def)
      then have "R s s2" using h trans by blast
      from finish [OF this, of latestBlock] Inr True Inr2 show ?thesis
        by (simp add: pollCycle_def Let_def)
    qed
  qed
qed

lemma runCycles_lift:
  assumes refl: "\<And>s. R s s"
    and trans: "\<And>a b c. R a b \<Longrightarrow> R b c \<Longrightarrow> R a c"
    and trade: "\<And>ob ev s. Q ob \<Longrightarrow> R s (stateOf (processTrade cfg ob ev s))"
    and head: "\<And>s b. R s (s\<lparr> stats := (stats s)\<lparr> lastBlock := b \<rparr> \<rparr>)"
    and sweep: "\<And>s now. R s (s\<lparr> betsByOutcome := cleanupOldBets cfg now (betsByOutcome s) \<rparr>)"
    and emit: "\<And>s. R s (s\<lparr> emitted := emitted s @ [Stats (stats s)] \<rparr>)"
    and obs: "list_all (answersSatisfy Q) chs"
  shows "R s (fst (runCycles cfg chs (s, c)))"
  using obs
proof (induction chs arbitrary: s c)
  case Nil
  then show ?case by (simp add: runCycles_def refl)
next
  case (Cons ch chs)
  obtain s1 c1 where step: "pollCycle cfg ch (s, c) = (s1, c1)"
    by (cases "pollCycle cfg ch (s, c)")
  have "R s (fst (pollCycle cfg ch (s, c)))"
    using pollCycle_lift [where R = R and Q = Q] refl trans trade head sweep emit Cons.prems
    by simp
  then have "R s s1" using step by simp
  moreover have "R s1 (fst (runCycles cfg chs (s1, c1)))"
    using Cons.IH Cons.prems by simp
  ultimately have "R s (fst (runCycles cfg chs (s1, c1)))"
    using trans by blast
  then show ?case using step by (simp add: runCycles_def)
qed

section \<open>One entry per wallet, and re-delivered trades\<close>

lemma checkAndAlert_ledger:
  "betsByOutcome (stateOf (checkAndAlert cfg ob k s)) = betsByOutcome s"
  by (simp add: checkAndAlert_def Let_def stateOf_def getMarketInfo_frame
      split: option.splits list.splits)

lemma processParticipant_zero:
  "processParticipant cfg ob ts tx (ZeroAddress, k, amt) s = Inr s"
  by (simp add: processParticipant_def)

lemma processParticipant_stale:
  assumes "w \<noteq> ZeroAddress" and "isWalletFresh ob w s = Inr (False, s1)"
  shows "processParticipant cfg ob ts tx (w, k, amt) s = Inr s1"
  using assms by (simp add: processParticipant_def)

lemma processParticipant_tracked:
  assumes "w \<noteq> ZeroAddress" and "isWalletFresh ob w s = Inr (True, s1)"
    and "list_ex (sameWallet w) (betsOf (betsByOutcome s) k)"
  shows "processParticipant cfg ob ts tx (w, k, amt) s =
     Inr (s1\<lparr> stats := (stats s1)\<lparr> freshWalletsDetected := freshWalletsDetected (stats s1) + 1 \<rparr>,
              betsByOutcome := AList.update k
                (addAmount w (of_nat amt / 1000000) (betsOf (betsByOutcome s) k))
                (betsByOutcome s) \<rparr>)"
proof -
  have same: "betsByOutcome s1 = betsByOutcome s"
    using assms(2) by (rule isWalletFresh_frame)
  obtain bets where "map_of (betsByOutcome s) k = Some bets"
    using assms(3) by (cases "map_of (betsByOutcome s) k") (simp_all add: betsOf_def)
  then show ?thesis
    using assms same by (simp add: processParticipant_def Let_def)
qed

lemma processParticipant_untracked:
  assumes "w \<noteq> ZeroAddress" and "isWalletFresh ob w s = Inr (True, s1)"
    and "\<not> list_ex (sameWallet w) (betsOf (betsByOutcome s) k)"
  shows "processParticipant cfg ob ts tx (w, k, amt) s =
     checkAndAlert cfg ob k
       (s1\<lparr> stats := (stats s1)\<lparr> freshWalletsDetected := freshWalletsDetected (stats s1) + 1 \<rparr>,
            betsByOutcome := AList.update k
              (betsOf (betsByOutcome s) k
                 @ [\<lparr> wallet = w, timestamp = ts, txHash = tx, isFresh = True,
                       amount = of_nat amt / 1000000 \<rparr>])
              (betsByOutcome s) \<rparr>)"
proof -
  have same: "betsByOutcome s1 = betsByOutcome s"
    using assms(2) by (rule isWalletFresh_frame)
  show ?thesis
  proof (cases "map_of (betsByOutcome s) k")
    case None
    then have "betsOf (betsByOutcome s) k = []" by (simp add: betsOf_def)
    with None assms same show ?thesis
      by (simp add: processParticipant_def Let_def betsOf_update_same)
  next
    case (Some bets)
    with assms same show ?thesis
      by (simp add: processParticipant_def Let_def)
  qed
qed

lemma updateFirst_split:
  assumes "list_ex P xs"
  shows "\<exists>pre x post. xs = pre @ x # post \<and> P x \<and> \<not> list_ex P pre
           \<and> updateFirst P f xs = pre @ f x # post"
  using assms
proof (induction xs)
  case Nil
  then show ?case by simp
next
  case (Cons y ys)
  show ?case
  proof (cases "P y")
    case True
    then have "y # ys = [] @ y # ys \<and> P y \<and> \<not> list_ex P []
        \<and> updateFirst P f (y # ys) = [] @ f y # ys" by simp
    then show ?thesis by blast
  next
    case False
    with Cons obtain pre x post where "ys = pre @ x # post" "P x" "\<not> list_ex P pre"
      "updateFirst P f ys = pre @ f x # post" by auto
    with False have "y # ys = (y # pre) @ x # post \<and> P x \<and> \<not> list_ex P (y # pre)
        \<and> updateFirst P f (y # ys) = (y # pre) @ f x # post" by simp
    then show ?thesis by blast
  qed
qed

lemma updateFirst_map:
  assumes "\<And>x. g (f x) = g x"
  shows "map g (updateFirst P f xs) = map g xs"
  by (induction xs) (simp_all add: assms)

lemma addAmount_wallets:
  "map (\<lambda>b. toLowerCase (wallet b)) (addAmount w a bets) = map (\<lambda>b. toLowerCase (wallet b)) bets"
  unfolding addAmount_def by (rule updateFirst_map) simp

lemma addAmount_timestamps:
  "map timestamp (addAmount w a bets) = map timestamp bets"
  unfolding addAmount_def by (rule updateFirst_map) simp

lemma uniqueWallets_addAmount:
  "uniqueWallets bets \<Longrightarrow> uniqueWallets (addAmount w a bets)"
  by (simp add: uniqueWallets_def addAmount_wallets)

lemma uniqueWallets_push:
  assumes "uniqueWallets bets" and "\<not> list_ex (sameWallet w) bets"
  shows "uniqueWallets (bets @ [\<lparr> wallet = w, timestamp = ts, txHash = tx, isFresh = fr,
                                   amount = a \<rparr>])"
  using assms by (auto simp: uniqueWallets_def list_ex_iff sameWallet_def)

lemma ledgerOk_bucket:
  assumes "ledgerOk m"
  shows "uniqueWallets (betsOf m k)"
proof (cases "map_of m k")
  case None
  then show ?thesis by (simp add: betsOf_def uniqueWallets_def)
next
  case (Some bets)
  then have "(k, bets) \<in> set m" by (rule map_of_SomeD)
  with assms Some show ?thesis
    by (auto simp: ledgerOk_def betsOf_def list_all_iff)
qed

lemma set_update_subset:
  "set (AList.update k v m) \<subseteq> insert (k, v) (set m)"
  by (induction m) auto

lemma ledgerOk_update:
  assumes "ledgerOk m" and "uniqueWallets v"
  shows "ledgerOk (AList.update k v m)"
  using assms set_update_subset [of k v m]
  by (auto simp: ledgerOk_def list_all_iff distinct_update)

lemma uniqueWallets_liveBets:
  "uniqueWallets bets \<Longrightarrow> uniqueWallets (liveBets c bets)"
  by (simp add: uniqueWallets_def liveBets_def distinct_map_filter)

lemma ledgerOk_cleanup:
  assumes "ledgerOk m"
  shows "ledgerOk (cleanupOldBets cfg now m)"
proof -
  have d: "distinct (map fst m)" using assms by (simp add: ledgerOk_def)
  have "list_all (\<lambda>e. uniqueWallets (snd e)) (sweptLedger c m)" for c
    using assms by (auto simp: ledgerOk_def sweptLedger_def list_all_iff uniqueWallets_liveBets)
  then show ?thesis
    using d by (simp add: cleanupOldBets_swept ledgerOk_def distinct_sweptLedger)
qed

lemma processParticipant_ledgerOk:
  assumes "ledgerOk (betsByOutcome s)"
  shows "ledgerOk (betsByOutcome (stateOf (processParticipant cfg ob ts tx p s)))"
proof -
  obtain w k amt where p: "p = (w, k, amt)" by (cases p)
  obtain fresh s1 where f: "isWalletFresh ob w s = Inr (fresh, s1)"
    using isWalletFresh_returns by blast
  have same: "betsByOutcome s1 = betsByOutcome s"
    using f by (rule isWalletFresh_frame)
  have bucket: "uniqueWallets (betsOf (betsByOutcome s) k)"
    using assms by (rule ledgerOk_bucket)
  show ?thesis
  proof (cases "w = ZeroAddress")
    case True
    with assms p show ?thesis by (simp add: processParticipant_zero stateOf_def)
  next
    case nz: False
    show ?thesis
    proof (cases fresh)
      case False
      with nz f p assms same show ?thesis
        by (simp add: processParticipant_stale stateOf_def)
    next
      case True
      show ?thesis
      proof (cases "list_ex (sameWallet w) (betsOf (betsByOutcome s) k)")
        case tracked: True
        show ?thesis
          using nz f True tracked p assms bucket
          by (simp add: processParticipant_tracked stateOf_def ledgerOk_update
              uniqueWallets_addAmount)
      next
        case untracked: False
        show ?thesis
          using nz f True untracked p assms bucket
          by (simp add: processParticipant_untracked checkAndAlert_ledger ledgerOk_update
              uniqueWallets_push)
      qed
    qed
  qed
qed

lemma processTrade_ledgerOk:
  assumes "ledgerOk (betsByOutcome s)"
  shows "ledgerOk (betsByOutcome (stateOf (processTrade cfg ob ev s)))"
proof -
  let ?R = "\<lambda>a b. ledgerOk (betsByOutcome a) \<longrightarrow> ledgerOk (betsByOutcome b)"
  let ?s0 = "s\<lparr> stats := (stats s)\<lparr> totalTrades := totalTrades (stats s) + 1 \<rparr> \<rparr>"
  have "?R ?s0 (stateOf (forEach (processParticipant cfg ob (clock ob) (transactionHash ev))
      [(maker ev, toString (makerAssetId ev), makerAmountFilled ev),
       (taker ev, toString (takerAssetId ev), takerAmountFilled ev)] ?s0))"
    by (rule forEach_lift [where R = ?R]) (simp_all add: processParticipant_ledgerOk)
  then show ?thesis
    using assms by (simp add: processTrade_def Let_def)
qed

lemma runCycles_ledgerOk:
  assumes "ledgerOk (betsByOutcome s)"
  shows "ledgerOk (betsByOutcome (fst (runCycles cfg chs (s, c))))"
proof -
  let ?R = "\<lambda>a b. ledgerOk (betsByOutcome a) \<longrightarrow> ledgerOk (betsByOutcome b)"
  have "list_all (answersSatisfy (\<lambda>ob. True)) chs"
    by (simp add: list_all_iff answersSatisfy_def list.pred_True split: sum.splits)
  then have "?R s (fst (runCycles cfg chs (s, c)))"
    by (rule runCycles_lift [where R = ?R and Q = "\<lambda>ob. True", rotated -1])
       (simp_all add: processTrade_ledgerOk ledgerOk_cleanup)
  with assms show ?thesis by simp
qed

lemma freshVerdict_cache:
  assumes "walletCache s = walletCache t"
  shows "freshVerdict ob w s = freshVerdict ob w t"
proof (cases "cacheValid ob w s")
  case True
  then have "cacheValid ob w t" using assms by (simp add: cacheValid_def)
  with True show ?thesis
    using isWalletFresh_hit [of ob w s] isWalletFresh_hit [of ob w t] assms
    by (auto simp: freshVerdict_def)
next
  case False
  then have "\<not> cacheValid ob w t" using assms by (simp add: cacheValid_def)
  with False show ?thesis
    by (simp add: freshVerdict_def isWalletFresh_miss split: sum.splits)
qed

lemma freshVerdictD:
  assumes "freshVerdict ob w s"
  shows "\<exists>s1. isWalletFresh ob w s = Inr (True, s1)"
  using assms isWalletFresh_returns [of ob w s] by (auto simp: freshVerdict_def)

lemma processParticipant_other_bucket:
  assumes "k' \<noteq> k"
  shows "betsOf (betsByOutcome (stateOf (processParticipant cfg ob ts tx (w, k', amt) s))) k
           = betsOf (betsByOutcome s) k"
proof -
  obtain fresh s1 where f: "isWalletFresh ob w s = Inr (fresh, s1)"
    using isWalletFresh_returns by blast
  have same: "betsByOutcome s1 = betsByOutcome s"
    using f by (rule isWalletFresh_frame)
  show ?thesis
  proof (cases "w = ZeroAddress")
    case True
    then show ?thesis by (simp add: processParticipant_zero stateOf_def)
  next
    case nz: False
    show ?thesis
    proof (cases fresh)
      case False
      with nz f same show ?thesis
        by (simp add: processParticipant_stale stateOf_def)
    next
      case True
      show ?thesis
      proof (cases "list_ex (sameWallet w) (betsOf (betsByOutcome s) k')")
        case tracked: True
        show ?thesis
          using nz f True tracked assms
          by (simp add: processParticipant_tracked stateOf_def betsOf_update_other)
      next
        case untracked: False
        show ?thesis
          using nz f True untracked assms
          by (simp add: processParticipant_untracked checkAndAlert_ledger betsOf_update_other)
      qed
    qed
  qed
qed

lemma processParticipant_accumulates:
  assumes nz: "w \<noteq> ZeroAddress" and fresh: "isWalletFresh ob w s = Inr (True, s1)"
    and bucket: "betsOf (betsByOutcome s) k = pre @ e # post"
    and same: "sameWallet w e" and first: "\<not> list_ex (sameWallet w) pre"
  shows "\<exists>s'. processParticipant cfg ob ts tx (w, k, amt) s = Inr s'
           \<and> betsOf (betsByOutcome s') k
               = pre @ e\<lparr>amount := amount e + of_nat amt / 1000000\<rparr> # post
           \<and> emitted s' = emitted s"
proof -
  have tracked: "list_ex (sameWallet w) (betsOf (betsByOutcome s) k)"
    using bucket same by (simp add: list_ex_iff)
  have "updateFirst (sameWallet w) f (pre @ e # post) = pre @ f e # post" for f
    using first same by (induction pre) simp_all
  then have "addAmount w (of_nat amt / 1000000) (betsOf (betsByOutcome s) k)
      = pre @ e\<lparr>amount := amount e + of_nat amt / 1000000\<rparr> # post"
    using bucket by (simp add: addAmount_def)
  moreover have "emitted s1 = emitted s"
    using fresh by (rule isWalletFresh_frame)
  ultimately show ?thesis
    using processParticipant_tracked [OF nz fresh tracked, of cfg ts tx amt]
    by (simp add: betsOf_update_same)
qed

text \<open>
  Claim C10. Processing a trade is not idempotent under re-delivery. When the maker of
  the delivered event is a fresh wallet that already has an entry on the event's
  outcome, and that entry carries the transaction hash of the event (the event has
  been delivered before), processing the event adds its amount to the entry once more:
  the ledger looks for the wallet address only and never compares transaction hashes.
\<close>

theorem redelivery_accumulates_again:
  assumes nz: "maker ev \<noteq> ZeroAddress"
    and fresh: "freshVerdict ob (maker ev) s"
    and sides: "toString (takerAssetId ev) \<noteq> toString (makerAssetId ev)"
    and bucket: "betsOf (betsByOutcome s) (toString (makerAssetId ev)) = pre @ e # post"
    and same: "sameWallet (maker ev) e" and first: "\<not> list_ex (sameWallet (maker ev)) pre"
    and hash: "txHash e = transactionHash ev"
  shows "\<exists>s'. processTrade cfg ob ev s = Inr s'
           \<and> betsOf (betsByOutcome s') (toString (makerAssetId ev))
               = pre @ e\<lparr>amount := amount e + of_nat (makerAmountFilled ev) / 1000000\<rparr> # post"
proof -
  let ?s0 = "s\<lparr> stats := (stats s)\<lparr> totalTrades := totalTrades (stats s) + 1 \<rparr> \<rparr>"
  let ?k = "toString (makerAssetId ev)"
  have "freshVerdict ob (maker ev) ?s0"
    using fresh freshVerdict_cache [of ?s0 s ob "maker ev"] by simp
  then obtain s1 where f: "isWalletFresh ob (maker ev) ?s0 = Inr (True, s1)"
    using freshVerdictD by blast
  have b0: "betsOf (betsByOutcome ?s0) ?k = pre @ e # post"
    using bucket by simp
  obtain s2 where m: "processParticipant cfg ob (clock ob) (transactionHash ev)
        (maker ev, ?k, makerAmountFilled ev) ?s0 = Inr s2"
    and b2: "betsOf (betsByOutcome s2) ?k
        = pre @ e\<lparr>amount := amount e + of_nat (makerAmountFilled ev) / 1000000\<rparr> # post"
    using processParticipant_accumulates [OF nz f b0 same first] by blast
  obtain s3 where t: "processParticipant cfg ob (clock ob) (transactionHash ev)
        (taker ev, toString (takerAssetId ev), takerAmountFilled ev) s2 = Inr s3"
    using processParticipant_returns by blast
  have "betsOf (betsByOutcome s3) ?k = betsOf (betsByOutcome s2) ?k"
    using processParticipant_other_bucket [OF sides, of cfg ob "clock ob" "transactionHash ev"
        "taker ev" "takerAmountFilled ev" s2] t
    by (simp add: stateOf_def)
  with b2 m t show ?thesis
    by (simp add: processTrade_def Let_def)
qed

lemma toString_small: "toString 7 = ''7''" "toString 0 = ''0''"
  by (simp_all add: toString.simps digitChar_def)

lemma first_delivery:
  "processTrade CONFIG (freshLookup 1000) exTrade (initialState 0) = Inr afterFirstDelivery"
proof -
  let ?s0 = "(initialState 0)\<lparr> stats := (stats (initialState 0))\<lparr> totalTrades :=
      totalTrades (stats (initialState 0)) + 1 \<rparr> \<rparr>"
  let ?s1 = "?s0\<lparr>queries := queries ?s0 @ [''0xAb01''],
      walletCache := AList.update (toLowerCase ''0xAb01'')
         \<lparr> cachedIsFresh = ((1::int) \<le> 2), checkedAt = clock (freshLookup 1000) \<rparr>
         (walletCache ?s0)\<rparr>"
  have nz: "''0xAb01'' \<noteq> ZeroAddress" by (simp add: ZeroAddress_def)
  have miss: "\<not> cacheValid (freshLookup 1000) ''0xAb01'' ?s0"
    by (simp add: cacheValid_def initialState_def)
  have f: "isWalletFresh (freshLookup 1000) ''0xAb01'' ?s0 = Inr (True, ?s1)"
    unfolding isWalletFresh_miss [OF miss] by (simp add: freshLookup_def)
  have un: "\<not> list_ex (sameWallet ''0xAb01'') (betsOf (betsByOutcome ?s0) ''7'')"
    by (simp add: initialState_def betsOf_def)
  have "processParticipant CONFIG (freshLookup 1000) 1000 ''0xt1'' (''0xAb01'', ''7'', 100000000) ?s0
      = Inr afterFirstDelivery"
    unfolding processParticipant_untracked [OF nz f un]
    by (simp add: checkAndAlert_def initialState_def betsOf_def CONFIG_def afterFirstDelivery_def
        toLowerCase_def lowerChar_def freshLookup_def)
  then show ?thesis
    by (simp add: processTrade_def exTrade_def toString_small Let_def processParticipant_zero
        freshLookup_def)
qed

theorem redelivery_accumulates_again_witness:
  "processTrade CONFIG (freshLookup 1000) exTrade (initialState 0) = Inr afterFirstDelivery
   \<and> maker exTrade \<noteq> ZeroAddress
   \<and> freshVerdict (freshLookup 2000) (maker exTrade) afterFirstDelivery
   \<and> toString (takerAssetId exTrade) \<noteq> toString (makerAssetId exTrade)
   \<and> betsOf (betsByOutcome afterFirstDelivery) (toString (makerAssetId exTrade))
        = [] @ \<lparr> wallet = ''0xAb01'', timestamp = 1000, txHash = ''0xt1'',
                  isFresh = True, amount = 100 \<rparr> # []
   \<and> sameWallet (maker exTrade) \<lparr> wallet = ''0xAb01'', timestamp = 1000, txHash = ''0xt1'',
                  isFresh = True, amount = 100 \<rparr>
   \<and> \<not> list_ex (sameWallet (maker exTrade)) []
   \<and> txHash \<lparr> wallet = ''0xAb01'', timestamp = 1000, txHash = ''0xt1'',
                  isFresh = True, amount = 100 \<rparr> = transactionHash exTrade
   \<and> (\<exists>s'. processTrade CONFIG (freshLookup 2000) exTrade afterFirstDelivery = Inr s'
          \<and> betsOf (betsByOutcome s') ''7''
              = [\<lparr> wallet = ''0xAb01'', timestamp = 1000, txHash = ''0xt1'',
                    isFresh = True, amount = 200 \<rparr>])"
proof -
  let ?e = "\<lparr> wallet = ''0xAb01'', timestamp = 1000, txHash = ''0xt1'',
                  isFresh = True, amount = 100 \<rparr>"
  have nz: "maker exTrade \<noteq> ZeroAddress" by (simp add: exTrade_def ZeroAddress_def)
  have valid: "cacheValid (freshLookup 2000) (maker exTrade) afterFirstDelivery"
    by (simp add: cacheValid_def afterFirstDelivery_def exTrade_def toLowerCase_def
        lowerChar_def freshLookup_def)
  have fresh: "freshVerdict (freshLookup 2000) (maker exTrade) afterFirstDelivery"
    using isWalletFresh_hit [OF valid]
    by (auto simp: freshVerdict_def afterFirstDelivery_def exTrade_def toLowerCase_def
        lowerChar_def)
  have sides: "toString (takerAssetId exTrade) \<noteq> toString (makerAssetId exTrade)"
    by (simp add: exTrade_def toString_small)
  have bucket: "betsOf (betsByOutcome afterFirstDelivery) (toString (makerAssetId exTrade))
      = [] @ ?e # []"
    by (simp add: afterFirstDelivery_def exTrade_def toString_small betsOf_def)
  have same: "sameWallet (maker exTrade) ?e"
    by (simp add: sameWallet_def exTrade_def)
  have first: "\<not> list_ex (sameWallet (maker exTrade)) []" by simp
  have hash: "txHash ?e = transactionHash exTrade" by (simp add: exTrade_def)
  have "\<exists>s'. processTrade CONFIG (freshLookup 2000) exTrade afterFirstDelivery = Inr s'
          \<and> betsOf (betsByOutcome s') ''7'' = [?e\<lparr>amount := 200\<rparr>]"
    using redelivery_accumulates_again [OF nz fresh sides bucket same first hash, of CONFIG]
    by (simp add: exTrade_def toString_small)
  then show ?thesis
    using first_delivery nz fresh sides bucket same first hash by simp
qed

text \<open>
  Claim C3. A ledger whose buckets hold at most one entry per wallet (compared without
  regard to letter case) stays so through every run of the polling loop and through
  every recording of a bet. Recording a bet of a fresh wallet that already has an entry
  on the outcome adds the amount to the first such entry and changes nothing else of
  the bucket (no new entry, the timestamp is the one it had) and emits nothing; a
  first bet of the wallet on the outcome appends a new entry at the end of the bucket
  and the result is that of \<^verbatim>\<open>checkAndAlert\<close> on the state so obtained.
\<close>

theorem ledger_one_entry_per_wallet:
  assumes ok: "ledgerOk (betsByOutcome s)"
    and nz: "w \<noteq> ZeroAddress"
    and fresh: "isWalletFresh ob w s = Inr (True, s1)"
  shows "ledgerOk (betsByOutcome (fst (runCycles cfg chs (s, cursor))))
     \<and> ledgerOk (betsByOutcome (stateOf (processParticipant cfg ob ts tx (w, k, amt) s)))
     \<and> (list_ex (sameWallet w) (betsOf (betsByOutcome s) k) \<longrightarrow>
          (\<exists>pre e post s'.
              betsOf (betsByOutcome s) k = pre @ e # post
            \<and> sameWallet w e \<and> \<not> list_ex (sameWallet w) pre
            \<and> processParticipant cfg ob ts tx (w, k, amt) s = Inr s'
            \<and> betsOf (betsByOutcome s') k
                = pre @ e\<lparr>amount := amount e + of_nat amt / 1000000\<rparr> # post
            \<and> emitted s' = emitted s))
     \<and> (\<not> list_ex (sameWallet w) (betsOf (betsByOutcome s) k) \<longrightarrow>
          processParticipant cfg ob ts tx (w, k, amt) s =
            checkAndAlert cfg ob k
              (s1\<lparr> stats := (stats s1)\<lparr> freshWalletsDetected :=
                                  freshWalletsDetected (stats s1) + 1 \<rparr>,
                   betsByOutcome := AList.update k
                     (betsOf (betsByOutcome s) k
                        @ [\<lparr> wallet = w, timestamp = ts, txHash = tx, isFresh = True,
                              amount = of_nat amt / 1000000 \<rparr>])
                     (betsByOutcome s) \<rparr>)
          \<and> betsOf (betsByOutcome (stateOf (processParticipant cfg ob ts tx (w, k, amt) s))) k
              = betsOf (betsByOutcome s) k
                  @ [\<lparr> wallet = w, timestamp = ts, txHash = tx, isFresh = True,
                        amount = of_nat amt / 1000000 \<rparr>])"
proof -
  have run: "ledgerOk (betsByOutcome (fst (runCycles cfg chs (s, cursor))))"
    using ok by (rule runCycles_ledgerOk)
  have step: "ledgerOk (betsByOutcome (stateOf (processParticipant cfg ob ts tx (w, k, amt) s)))"
    using ok by (rule processParticipant_ledgerOk)
  have tracked: "\<exists>pre e post s'.
              betsOf (betsByOutcome s) k = pre @ e # post
            \<and> sameWallet w e \<and> \<not> list_ex (sameWallet w) pre
            \<and> processParticipant cfg ob ts tx (w, k, amt) s = Inr s'
            \<and> betsOf (betsByOutcome s') k
                = pre @ e\<lparr>amount := amount e + of_nat amt / 1000000\<rparr> # post
            \<and> emitted s' = emitted s"
    if t: "list_ex (sameWallet w) (betsOf (betsByOutcome s) k)"
  proof -
    obtain pre e post where sp: "betsOf (betsByOutcome s) k = pre @ e # post"
      "sameWallet w e" "\<not> list_ex (sameWallet w) pre"
      using updateFirst_split [OF t, of id] by blast
    then show ?thesis
      using processParticipant_accumulates [OF nz fresh sp, of cfg ts tx amt] by blast
  qed
  have untracked: "processParticipant cfg ob ts tx (w, k, amt) s =
            checkAndAlert cfg ob k
              (s1\<lparr> stats := (stats s1)\<lparr> freshWalletsDetected :=
                                  freshWalletsDetected (stats s1) + 1 \<rparr>,
                   betsByOutcome := AList.update k
                     (betsOf (betsByOutcome s) k
                        @ [\<lparr> wallet = w, timestamp = ts, txHash = tx, isFresh = True,
                              amount = of_nat amt / 1000000 \<rparr>])
                     (betsByOutcome s) \<rparr>)
          \<and> betsOf (betsByOutcome (stateOf (processParticipant cfg ob ts tx (w, k, amt) s))) k
              = betsOf (betsByOutcome s) k
                  @ [\<lparr> wallet = w, timestamp = ts, txHash = tx, isFresh = True,
                        amount = of_nat amt / 1000000 \<rparr>]"
    if u: "\<not> list_ex (sameWallet w) (betsOf (betsByOutcome s) k)"
    using processParticipant_untracked [OF nz fresh u, of cfg ts tx amt]
    by (simp add: checkAndAlert_ledger betsOf_update_same)
  show ?thesis
    using run step tracked untracked by blast
qed

theorem ledger_one_entry_per_wallet_witness:
  "ledgerOk (betsByOutcome exTracked)
   \<and> ''0xAB01'' \<noteq> ZeroAddress
   \<and> isWalletFresh (freshLookup 5000) ''0xAB01'' exTracked
       = Inr (True, exTracked\<lparr> queries := [''0xAB01''],
                walletCache := [(''0xab01'', \<lparr> cachedIsFresh = True, checkedAt = 5000 \<rparr>)] \<rparr>)
   \<and> list_ex (sameWallet ''0xAB01'') (betsOf (betsByOutcome exTracked) ''7'')
   \<and> (\<exists>s'. processParticipant CONFIG (freshLookup 5000) 5000 ''0xt2''
               (''0xAB01'', ''7'', 200000000) exTracked = Inr s'
          \<and> betsOf (betsByOutcome s') ''7''
              = [\<lparr> wallet = ''0xAb01'', timestamp = 1000, txHash = ''0xt1'',
                    isFresh = True, amount = 300 \<rparr>])
   \<and> \<not> list_ex (sameWallet ''0xAB01'') (betsOf (betsByOutcome exTracked) ''8'')
   \<and> betsOf (betsByOutcome (stateOf (processParticipant CONFIG (freshLookup 5000) 5000 ''0xt2''
               (''0xAB01'', ''8'', 200000000) exTracked))) ''8''
        = [\<lparr> wallet = ''0xAB01'', timestamp = 5000, txHash = ''0xt2'',
              isFresh = True, amount = 200 \<rparr>]"
proof -
  let ?s1 = "exTracked\<lparr> queries := [''0xAB01''],
                walletCache := [(''0xab01'', \<lparr> cachedIsFresh = True, checkedAt = 5000 \<rparr>)] \<rparr>"
  let ?e = "\<lparr> wallet = ''0xAb01'', timestamp = 1000, txHash = ''0xt1'',
                  isFresh = True, amount = 100 \<rparr>"
  have ok: "ledgerOk (betsByOutcome exTracked)"
    by (simp add: ledgerOk_def exTracked_def uniqueWallets_def)
  have nz: "''0xAB01'' \<noteq> ZeroAddress" by (simp add: ZeroAddress_def)
  have miss: "\<not> cacheValid (freshLookup 5000) ''0xAB01'' exTracked"
    by (simp add: cacheValid_def exTracked_def initialState_def)
  have fresh: "isWalletFresh (freshLookup 5000) ''0xAB01'' exTracked = Inr (True, ?s1)"
    unfolding isWalletFresh_miss [OF miss]
    by (simp add: freshLookup_def exTracked_def initialState_def toLowerCase_def lowerChar_def)
  have b7: "betsOf (betsByOutcome exTracked) ''7'' = [?e]"
    by (simp add: exTracked_def betsOf_def)
  have b8: "betsOf (betsByOutcome exTracked) ''8'' = []"
    by (simp add: exTracked_def betsOf_def)
  have tr: "list_ex (sameWallet ''0xAB01'') (betsOf (betsByOutcome exTracked) ''7'')"
    unfolding b7 by (simp add: sameWallet_def toLowerCase_def lowerChar_def)
  have un: "\<not> list_ex (sameWallet ''0xAB01'') (betsOf (betsByOutcome exTracked) ''8'')"
    unfolding b8 by simp
  have "\<exists>pre e post s'.
              betsOf (betsByOutcome exTracked) ''7'' = pre @ e # post
            \<and> sameWallet ''0xAB01'' e \<and> \<not> list_ex (sameWallet ''0xAB01'') pre
            \<and> processParticipant CONFIG (freshLookup 5000) 5000 ''0xt2''
                 (''0xAB01'', ''7'', 200000000) exTracked = Inr s'
            \<and> betsOf (betsByOutcome s') ''7''
                = pre @ e\<lparr>amount := amount e + of_nat 200000000 / 1000000\<rparr> # post
            \<and> emitted s' = emitted exTracked"
    using ledger_one_entry_per_wallet [OF ok nz fresh, of CONFIG "[]" 0 5000 "''0xt2''" "''7''"
        200000000] tr by blast
  then obtain pre e post s' where
      sp: "[?e] = pre @ e # post"
      and r: "processParticipant CONFIG (freshLookup 5000) 5000 ''0xt2''
                 (''0xAB01'', ''7'', 200000000) exTracked = Inr s'"
        "betsOf (betsByOutcome s') ''7''
                = pre @ e\<lparr>amount := amount e + of_nat 200000000 / 1000000\<rparr> # post"
    unfolding b7 by blast
  from sp have "pre = [] \<and> e = ?e \<and> post = []"
    by (cases pre) simp_all
  with r have seven: "\<exists>s'. processParticipant CONFIG (freshLookup 5000) 5000 ''0xt2''
               (''0xAB01'', ''7'', 200000000) exTracked = Inr s'
          \<and> betsOf (betsByOutcome s') ''7'' = [?e\<lparr>amount := 300\<rparr>]"
    by simp
  have "processParticipant CONFIG (freshLookup 5000) 5000 ''0xt2''
            (''0xAB01'', ''8'', 200000000) exTracked =
          checkAndAlert CONFIG (freshLookup 5000) ''8''
            (?s1\<lparr> stats := (stats ?s1)\<lparr> freshWalletsDetected :=
                                  freshWalletsDetected (stats ?s1) + 1 \<rparr>,
                 betsByOutcome := AList.update ''8''
                   (betsOf (betsByOutcome exTracked) ''8''
                      @ [\<lparr> wallet = ''0xAB01'', timestamp = 5000, txHash = ''0xt2'',
                            isFresh = True, amount = of_nat 200000000 / 1000000 \<rparr>])
                   (betsByOutcome exTracked) \<rparr>)
        \<and> betsOf (betsByOutcome (stateOf (processParticipant CONFIG (freshLookup 5000) 5000
              ''0xt2'' (''0xAB01'', ''8'', 200000000) exTracked))) ''8''
            = betsOf (betsByOutcome exTracked) ''8''
                @ [\<lparr> wallet = ''0xAB01'', timestamp = 5000, txHash = ''0xt2'',
                      isFresh = True, amount = of_nat 200000000 / 1000000 \<rparr>]"
    using ledger_one_entry_per_wallet [OF ok nz fresh, of CONFIG "[]" 0 5000 "''0xt2''" "''8''"
        200000000] un by blast
  then have "betsOf (betsByOutcome (stateOf (processParticipant CONFIG (freshLookup 5000) 5000
              ''0xt2'' (''0xAB01'', ''8'', 200000000) exTracked))) ''8''
            = betsOf (betsByOutcome exTracked) ''8''
                @ [\<lparr> wallet = ''0xAB01'', timestamp = 5000, txHash = ''0xt2'',
                      isFresh = True, amount = of_nat 200000000 / 1000000 \<rparr>]"
    by (rule conjunct2)
  then have eight: "betsOf (betsByOutcome (stateOf (processParticipant CONFIG (freshLookup 5000)
        5000 ''0xt2'' (''0xAB01'', ''8'', 200000000) exTracked))) ''8''
        = [\<lparr> wallet = ''0xAB01'', timestamp = 5000, txHash = ''0xt2'',
              isFresh = True, amount = 200 \<rparr>]"
    unfolding b8 by simp
  show ?thesis
    using ok nz fresh tr seven un eight by simp
qed

section \<open>Chunked and direct scanning\<close>

lemma forEach_append:
  "forEach body (xs @ ys) s = andThen (forEach body xs s) (forEach body ys)"
  by (induction xs arbitrary: s) (simp_all add: andThen_def split: sum.splits)

lemma processEvents_append:
  "processEvents cfg (xs @ ys) s = andThen (processEvents cfg xs s) (processEvents cfg ys)"
proof -
  have "processEvents cfg ys = forEach (\<lambda>e. processTrade cfg (snd e) (fst e)) ys"
    by (rule ext) (simp add: processEvents_def)
  then show ?thesis
    by (simp add: processEvents_def forEach_append)
qed

lemma scanChunks_blocks:
  assumes "servesBlocks blocks ch"
  shows "scanChunks cfg ch lo hi s = processEvents cfg (concat (map blocks [lo..hi])) s"
  using assms
proof (induction cfg ch lo hi s rule: scanChunks.induct)
  case (1 cfg ch fromBlock latestBlock s)
  note serves = "1.prems"
  show ?case
  proof (cases "fromBlock \<le> latestBlock")
    case False
    then show ?thesis
      by (subst scanChunks.simps) (simp add: processEvents_def)
  next
    case True
    let ?to = "min (fromBlock + CHUNK_SIZE - 1) latestBlock"
    have q: "queryFilter ch fromBlock ?to = Inr (concat (map blocks [fromBlock..?to]))"
      using serves by (simp add: servesBlocks_def)
    have "fromBlock \<le> ?to" "?to \<le> latestBlock"
      using True by (simp_all add: CHUNK_SIZE_def)
    then have split: "[fromBlock..latestBlock] = [fromBlock..?to] @ [?to + 1..latestBlock]"
      by (rule upto_split2)
    show ?thesis
    proof (cases "processEvents cfg (concat (map blocks [fromBlock..?to])) s")
      case (Inl r)
      then have "processEvents cfg (concat (map blocks [fromBlock..latestBlock])) s = Inl r"
        unfolding split by (simp add: processEvents_append andThen_def)
      moreover have "scanChunks cfg ch fromBlock latestBlock s = Inl r"
        using True q Inl by (subst scanChunks.simps) simp
      ultimately show ?thesis by simp
    next
      case (Inr s')
      have "scanChunks cfg ch (?to + 1) latestBlock s'
          = processEvents cfg (concat (map blocks [?to + 1..latestBlock])) s'"
        using "1.IH" [OF True HOL.refl q Inr serves] .
      moreover have "scanChunks cfg ch fromBlock latestBlock s
          = scanChunks cfg ch (?to + 1) latestBlock s'"
        using True q Inr by (subst scanChunks.simps) simp
      moreover have "processEvents cfg (concat (map blocks [fromBlock..latestBlock])) s
          = processEvents cfg (concat (map blocks [?to + 1..latestBlock])) s'"
        unfolding split using Inr by (simp add: processEvents_append andThen_def)
      ultimately show ?thesis by simp
    qed
  qed
qed

lemma scanDirect_blocks:
  assumes "servesBlocks blocks ch"
  shows "scanDirect cfg ch lo hi s = processEvents cfg (concat (map blocks [lo..hi])) s"
proof (cases "lo \<le> hi")
  case True
  have "queryFilter ch lo hi = Inr (concat (map blocks [lo..hi]))"
    using assms by (simp add: servesBlocks_def)
  with True show ?thesis by (simp add: scanDirect_def)
next
  case False
  then have "[lo..hi] = []" by simp
  with False show ?thesis by (simp add: scanDirect_def processEvents_def)
qed

text \<open>
  Claim C9. When the chain answers every range query with the logs of the blocks of the
  range in block order, the chunk loop over a range of blocks returns what one query
  over the whole range followed by sequential processing returns. Scanning a range in
  two passes, the second on the state the first one leaves, returns the same again; in
  particular blocks 100 to 109 and then 110 to 119 give the state, hence the bet
  ledger, of blocks 100 to 119 scanned in one pass.
\<close>

theorem chunked_scan_equals_direct:
  assumes "servesBlocks blocks ch"
  shows "scanChunks cfg ch lo hi s = scanDirect cfg ch lo hi s
     \<and> (lo \<le> mid + 1 \<and> mid \<le> hi \<longrightarrow>
          andThen (scanChunks cfg ch lo mid s) (scanChunks cfg ch (mid + 1) hi)
            = scanDirect cfg ch lo hi s)
     \<and> andThen (scanChunks cfg ch 100 109 s) (scanChunks cfg ch 110 119)
          = scanDirect cfg ch 100 119 s
     \<and> betsByOutcome (stateOf (andThen (scanChunks cfg ch 100 109 s) (scanChunks cfg ch 110 119)))
          = betsByOutcome (stateOf (scanDirect cfg ch 100 119 s))"
proof -
  have chunked: "scanChunks cfg ch a b t = processEvents cfg (concat (map blocks [a..b])) t"
    for a b t using assms by (rule scanChunks_blocks)
  have direct: "scanDirect cfg ch a b t = processEvents cfg (concat (map blocks [a..b])) t"
    for a b t using assms by (rule scanDirect_blocks)
  have two: "andThen (scanChunks cfg ch a m s) (scanChunks cfg ch (m + 1) b)
            = scanDirect cfg ch a b s" if "a \<le> m + 1" "m \<le> b" for a m b
  proof -
    have parts: "[a..b] = [a..m] @ [m + 1..b]"
    proof (cases "a \<le> m")
      case True
      then show ?thesis using that(2) by (rule upto_split2)
    next
      case False
      with that have "a = m + 1" by simp
      then show ?thesis by simp
    qed
    have second: "scanChunks cfg ch (m + 1) b
        = processEvents cfg (concat (map blocks [m + 1..b]))"
      by (rule ext) (rule chunked)
    have "processEvents cfg (concat (map blocks [a..b])) s
        = andThen (processEvents cfg (concat (map blocks [a..m])) s)
            (processEvents cfg (concat (map blocks [m + 1..b])))"
      unfolding parts by (simp only: map_append concat_append processEvents_append)
    then show ?thesis
      by (simp only: chunked [of a m s] second direct)
  qed
  have whole: "scanChunks cfg ch lo hi s = scanDirect cfg ch lo hi s"
    by (simp only: chunked direct)
  have passes: "andThen (scanChunks cfg ch 100 109 s) (scanChunks cfg ch 110 119)
          = scanDirect cfg ch 100 119 s"
    using two [of 100 109 119] by simp
  have split: "lo \<le> mid + 1 \<and> mid \<le> hi \<longrightarrow>
          andThen (scanChunks cfg ch lo mid s) (scanChunks cfg ch (mid + 1) hi)
            = scanDirect cfg ch lo hi s"
    using two [of lo mid hi] by blast
  have ledgers: "betsByOutcome (stateOf (andThen (scanChunks cfg ch 100 109 s)
        (scanChunks cfg ch 110 119))) = betsByOutcome (stateOf (scanDirect cfg ch 100 119 s))"
    by (simp only: passes)
  from whole split passes ledgers show ?thesis by blast
qed

lemma exRpc_logs:
  "queryFilter exRpc 100 109 = Inr [(exTrade, freshLookup 1000)]"
  "queryFilter exRpc 110 119 = Inr [(exTrade, freshLookup 2000)]"
  "queryFilter exRpc 100 119 = Inr [(exTrade, freshLookup 1000), (exTrade, freshLookup 2000)]"
  by (simp_all add: exRpc_def exBlocks_def)

theorem chunked_scan_equals_direct_witness:
  "servesBlocks exBlocks exRpc
   \<and> queryFilter exRpc 100 109 = Inr [(exTrade, freshLookup 1000)]
   \<and> queryFilter exRpc 110 119 = Inr [(exTrade, freshLookup 2000)]
   \<and> queryFilter exRpc 100 119 = Inr [(exTrade, freshLookup 1000), (exTrade, freshLookup 2000)]
   \<and> andThen (scanChunks CONFIG exRpc 100 109 (initialState 0)) (scanChunks CONFIG exRpc 110 119)
       = scanDirect CONFIG exRpc 100 119 (initialState 0)
   \<and> scanChunks CONFIG exRpc 100 119 (initialState 0)
       = scanDirect CONFIG exRpc 100 119 (initialState 0)"
proof -
  have s: "servesBlocks exBlocks exRpc"
    by (simp add: servesBlocks_def exRpc_def)
  from chunked_scan_equals_direct [OF s, of CONFIG 100 119 "initialState 0" 109]
  have "scanChunks CONFIG exRpc 100 119 (initialState 0)
          = scanDirect CONFIG exRpc 100 119 (initialState 0)"
    and "andThen (scanChunks CONFIG exRpc 100 109 (initialState 0))
          (scanChunks CONFIG exRpc 110 119) = scanDirect CONFIG exRpc 100 119 (initialState 0)"
    by blast+
  with s exRpc_logs show ?thesis by blast
qed

section \<open>The scan cursor\<close>

lemma pollCycle_cursor:
  "snd (pollCycle cfg ch (s, c)) =
     (case getBlockNumber ch of
        Inl e \<Rightarrow> c
      | Inr latestBlock \<Rightarrow>
          if latestBlock > c then
            (case scanChunks cfg ch (c + 1) latestBlock
                    (s\<lparr> stats := (stats s)\<lparr> lastBlock := latestBlock \<rparr> \<rparr>) of
               Inl r \<Rightarrow> c
             | Inr s2 \<Rightarrow> latestBlock)
          else c)"
  by (simp add: pollCycle_def Let_def split: sum.splits prod.splits)

lemma pollCycle_monotone: "c \<le> snd (pollCycle cfg ch (s, c))"
  by (simp add: pollCycle_cursor split: sum.splits)

lemma runCycles_monotone: "c \<le> snd (runCycles cfg chs (s, c))"
proof (induction chs arbitrary: s c)
  case Nil
  then show ?case by (simp add: runCycles_def)
next
  case (Cons ch chs)
  obtain s1 c1 where step: "pollCycle cfg ch (s, c) = (s1, c1)"
    by (cases "pollCycle cfg ch (s, c)")
  have "c \<le> c1" using pollCycle_monotone [of c cfg ch s] step by simp
  moreover have "c1 \<le> snd (runCycles cfg chs (s1, c1))" by (rule Cons.IH)
  ultimately show ?case using step by (simp add: runCycles_def)
qed

lemma processTrade_zero:
  "processTrade cfg ob zeroTrade s
     = Inr (s\<lparr> stats := (stats s)\<lparr> totalTrades := totalTrades (stats s) + 1 \<rparr> \<rparr>)"
  by (simp add: processTrade_def zeroTrade_def Let_def processParticipant_zero)

lemma secondChunkFails_scan:
  "scanChunks cfg secondChunkFails 100 119 s
     = Inl (RpcError, s\<lparr> stats := (stats s)\<lparr> totalTrades := totalTrades (stats s) + 1 \<rparr> \<rparr>)"
proof -
  have "scanChunks cfg secondChunkFails 110 119 t = Inl (RpcError, t)" for t
    by (subst scanChunks.simps) (simp add: secondChunkFails_def CHUNK_SIZE_def)
  then show ?thesis
    by (subst scanChunks.simps)
       (simp add: secondChunkFails_def CHUNK_SIZE_def processEvents_def processTrade_zero)
qed

text \<open>
  Claim C4, as stated, fails. With the cursor at block 99 and the head at 119, the
  events of the chunk of blocks 100 to 109 are fetched and fully processed (one trade
  is counted), the query for blocks 110 to 119 fails, and the cursor is 99 after the
  cycle: it has not advanced to 109, the end of the chunk that was processed.
\<close>

theorem cursor_not_advanced_per_chunk:
  "queryFilter secondChunkFails 100 109 = Inr [(zeroTrade, failingLookup)]
   \<and> queryFilter secondChunkFails 110 119 = Inl RpcError
   \<and> totalTrades (stats (initialState 0)) = 0
   \<and> totalTrades (stats (fst (pollCycle CONFIG secondChunkFails (initialState 0, 99)))) = 1
   \<and> snd (pollCycle CONFIG secondChunkFails (initialState 0, 99)) = 99
   \<and> snd (pollCycle CONFIG secondChunkFails (initialState 0, 99)) \<noteq> 109"
proof -
  let ?s1 = "(initialState 0)\<lparr> stats := (stats (initialState 0))\<lparr> lastBlock := 119 \<rparr> \<rparr>"
  have head: "getBlockNumber secondChunkFails = Inr 119"
    by (simp add: secondChunkFails_def)
  have scan: "scanChunks CONFIG secondChunkFails 100 119 ?s1
      = Inl (RpcError, ?s1\<lparr> stats := (stats ?s1)\<lparr> totalTrades := totalTrades (stats ?s1) + 1 \<rparr> \<rparr>)"
    using secondChunkFails_scan [of CONFIG ?s1] by simp
  have "pollCycle CONFIG secondChunkFails (initialState 0, 99)
      = (?s1\<lparr> stats := (stats ?s1)\<lparr> totalTrades := totalTrades (stats ?s1) + 1 \<rparr> \<rparr>, 99)"
    using head scan by (simp add: pollCycle_def Let_def)
  then show ?thesis
    by (simp add: secondChunkFails_def initialState_def)
qed

text \<open>
  Claim C4, amended. The cursor \<^verbatim>\<open>lastProcessedBlock\<close> never decreases, in one cycle
  and in any run of cycles. It changes in a cycle only when the head was read and the
  chunk loop over all the blocks from the cursor to the head returned without a
  failure, and then it is that head; and when the head is beyond the cursor and the
  chunk loop returns without a failure, the cursor is the head after the cycle. When
  reading the head fails the cycle changes nothing; when a query of the chunk loop
  fails the cursor is unchanged, so the next cycle scans from the same start, while
  the state is the one the chunks processed before the failure have left.
\<close>

theorem cursor_advances_per_cycle:
  "c \<le> snd (pollCycle cfg ch (s, c))
   \<and> c \<le> snd (runCycles cfg chs (s, c))
   \<and> (snd (pollCycle cfg ch (s, c)) \<noteq> c \<longrightarrow>
        (\<exists>s2. getBlockNumber ch = Inr (snd (pollCycle cfg ch (s, c)))
            \<and> scanChunks cfg ch (c + 1) (snd (pollCycle cfg ch (s, c)))
                 (s\<lparr> stats := (stats s)\<lparr> lastBlock := snd (pollCycle cfg ch (s, c)) \<rparr> \<rparr>)
                = Inr s2))
   \<and> (getBlockNumber ch = Inr h \<and> c < h
        \<and> scanChunks cfg ch (c + 1) h (s\<lparr> stats := (stats s)\<lparr> lastBlock := h \<rparr> \<rparr>)
             = Inr s2
        \<longrightarrow> snd (pollCycle cfg ch (s, c)) = h)
   \<and> (getBlockNumber ch = Inl e \<longrightarrow> pollCycle cfg ch (s, c) = (s, c))
   \<and> (getBlockNumber ch = Inr h \<and> c < h
        \<and> scanChunks cfg ch (c + 1) h (s\<lparr> stats := (stats s)\<lparr> lastBlock := h \<rparr> \<rparr>)
             = Inl (e, s')
        \<longrightarrow> pollCycle cfg ch (s, c) = (s', c))"
proof -
  have adv: "\<exists>s2. getBlockNumber ch = Inr (snd (pollCycle cfg ch (s, c)))
            \<and> scanChunks cfg ch (c + 1) (snd (pollCycle cfg ch (s, c)))
                 (s\<lparr> stats := (stats s)\<lparr> lastBlock := snd (pollCycle cfg ch (s, c)) \<rparr> \<rparr>)
                = Inr s2"
    if "snd (pollCycle cfg ch (s, c)) \<noteq> c"
    using that unfolding pollCycle_cursor
    by (auto split: sum.splits if_splits)
  have served: "snd (pollCycle cfg ch (s, c)) = h"
    if "getBlockNumber ch = Inr h" "c < h"
      "scanChunks cfg ch (c + 1) h (s\<lparr> stats := (stats s)\<lparr> lastBlock := h \<rparr> \<rparr>) = Inr s2"
    using that by (simp add: pollCycle_cursor)
  have headFails: "pollCycle cfg ch (s, c) = (s, c)" if "getBlockNumber ch = Inl e"
    using that by (simp add: pollCycle_def)
  have chunkFails: "pollCycle cfg ch (s, c) = (s', c)"
    if "getBlockNumber ch = Inr h" "c < h"
      "scanChunks cfg ch (c + 1) h (s\<lparr> stats := (stats s)\<lparr> lastBlock := h \<rparr> \<rparr>) = Inl (e, s')"
    using that by (simp add: pollCycle_def Let_def)
  show ?thesis
    using pollCycle_monotone [of c cfg ch s] runCycles_monotone [of c cfg chs s]
      adv served headFails chunkFails by blast
qed

lemma bothChunksServed_scan:
  "scanChunks cfg bothChunksServed 100 119 s
     = Inr (s\<lparr> stats := (stats s)\<lparr> totalTrades := totalTrades (stats s) + 1 \<rparr> \<rparr>)"
proof -
  have "scanChunks cfg bothChunksServed 120 119 t = Inr t" for t
    by (subst scanChunks.simps) simp
  then have "scanChunks cfg bothChunksServed 110 119 t = Inr t" for t
    by (subst scanChunks.simps)
       (simp add: bothChunksServed_def CHUNK_SIZE_def processEvents_def)
  then show ?thesis
    by (subst scanChunks.simps)
       (simp add: bothChunksServed_def CHUNK_SIZE_def processEvents_def processTrade_zero)
qed

theorem cursor_advances_per_cycle_witness:
  "getBlockNumber secondChunkFails = Inr 119
   \<and> scanChunks CONFIG secondChunkFails (99 + 1) 119
        ((initialState 0)\<lparr> stats := (stats (initialState 0))\<lparr> lastBlock := 119 \<rparr> \<rparr>)
       = Inl (RpcError,
              (initialState 0)\<lparr> stats := (stats (initialState 0))\<lparr> lastBlock := 119,
                 totalTrades := 1 \<rparr> \<rparr>)
   \<and> pollCycle CONFIG secondChunkFails (initialState 0, 99)
       = ((initialState 0)\<lparr> stats := (stats (initialState 0))\<lparr> lastBlock := 119,
             totalTrades := 1 \<rparr> \<rparr>, 99)
   \<and> getBlockNumber bothChunksServed = Inr 119
   \<and> scanChunks CONFIG bothChunksServed (99 + 1) 119
        ((initialState 0)\<lparr> stats := (stats (initialState 0))\<lparr> lastBlock := 119 \<rparr> \<rparr>)
       = Inr ((initialState 0)\<lparr> stats := (stats (initialState 0))\<lparr> lastBlock := 119,
                 totalTrades := 1 \<rparr> \<rparr>)
   \<and> snd (pollCycle CONFIG bothChunksServed (initialState 0, 99)) = 119
   \<and> snd (pollCycle CONFIG bothChunksServed (initialState 0, 99)) \<noteq> 99"
proof -
  let ?s1 = "(initialState 0)\<lparr> stats := (stats (initialState 0))\<lparr> lastBlock := 119 \<rparr> \<rparr>"
  let ?s2 = "(initialState 0)\<lparr> stats := (stats (initialState 0))\<lparr> lastBlock := 119,
                 totalTrades := 1 \<rparr> \<rparr>"
  have lt: "(99::int) < 119" by simp
  have head: "getBlockNumber secondChunkFails = Inr 119"
    by (simp add: secondChunkFails_def)
  have scan: "scanChunks CONFIG secondChunkFails (99 + 1) 119 ?s1 = Inl (RpcError, ?s2)"
    using secondChunkFails_scan [of CONFIG ?s1] by (simp add: initialState_def)
  have failed: "pollCycle CONFIG secondChunkFails (initialState 0, 99) = (?s2, 99)"
    using cursor_advances_per_cycle [of 99 CONFIG secondChunkFails "initialState 0" "[]"
        119 ?s2 RpcError ?s2] head scan lt
    by blast
  have head2: "getBlockNumber bothChunksServed = Inr 119"
    by (simp add: bothChunksServed_def)
  have scan2: "scanChunks CONFIG bothChunksServed (99 + 1) 119 ?s1 = Inr ?s2"
    using bothChunksServed_scan [of CONFIG ?s1] by (simp add: initialState_def)
  have moved: "snd (pollCycle CONFIG bothChunksServed (initialState 0, 99)) = 119"
    using cursor_advances_per_cycle [of 99 CONFIG bothChunksServed "initialState 0" "[]"
        119 ?s2 RpcError ?s2] head2 scan2 lt
    by blast
  then have ne: "snd (pollCycle CONFIG bothChunksServed (initialState 0, 99)) \<noteq> 99"
    by simp
  from head scan failed head2 scan2 moved ne show ?thesis by blast
qed

section \<open>What a call of the detector emits\<close>

lemma outcomeId_refreshAlert [simp]: "outcomeId (refreshAlert ob bets a) = outcomeId a"
  by (simp add: refreshAlert_def)

lemma outcomeId_buildAlert [simp]: "outcomeId (buildAlert ob k info f fs) = k"
  by (simp add: buildAlert_def)

lemma find_outcome:
  "find (\<lambda>a. outcomeId a = k) as = Some a \<Longrightarrow> outcomeId a = k"
  by (induction as) (auto split: if_splits)

lemma checkAndAlert_alerted:
  assumes "k \<in> alertedOutcomes s"
  shows "checkAndAlert cfg ob k s =
     (case find (\<lambda>a. outcomeId a = k) (alerts s) of
        None \<Rightarrow> Inr s
      | Some existingAlert \<Rightarrow>
          Inr (s\<lparr> alerts := updateFirst (\<lambda>a. outcomeId a = k)
                     (refreshAlert ob (filter isFresh (betsOf (betsByOutcome s) k))) (alerts s),
                   emitted := emitted s
                     @ [AlertUpdate (refreshAlert ob (filter isFresh (betsOf (betsByOutcome s) k))
                          existingAlert)] \<rparr>))"
  using assms by (simp add: checkAndAlert_def Let_def split: option.splits)

lemma checkAndAlert_below:
  assumes "k \<notin> alertedOutcomes s"
    and "length (filter isFresh (betsOf (betsByOutcome s) k)) < freshWalletThreshold cfg"
  shows "checkAndAlert cfg ob k s = Inr s"
  using assms by (simp add: checkAndAlert_def Let_def)

lemma checkAndAlert_filtered:
  assumes "k \<notin> alertedOutcomes s"
    and "freshWalletThreshold cfg \<le> length (filter isFresh (betsOf (betsByOutcome s) k))"
    and "shouldFilterMarket (fst (getMarketInfo ob k s))"
  shows "checkAndAlert cfg ob k s =
     Inr ((snd (getMarketInfo ob k s))\<lparr> alertedOutcomes := insert k (alertedOutcomes s) \<rparr>)"
  using assms by (simp add: checkAndAlert_def Let_def getMarketInfo_frame)

lemma checkAndAlert_fires:
  assumes "k \<notin> alertedOutcomes s"
    and "freshWalletThreshold cfg \<le> length (filter isFresh (betsOf (betsByOutcome s) k))"
    and "\<not> shouldFilterMarket (fst (getMarketInfo ob k s))"
    and "filter isFresh (betsOf (betsByOutcome s) k) = f # fs"
  shows "checkAndAlert cfg ob k s =
     Inr ((snd (getMarketInfo ob k s))
           \<lparr> alertedOutcomes := insert k (alertedOutcomes s),
              stats := (stats s)\<lparr> alertsTriggered := alertsTriggered (stats s) + 1 \<rparr>,
              alerts := pushAlert (buildAlert ob k (fst (getMarketInfo ob k s)) f (f # fs)) (alerts s),
              emitted := emitted s
                @ [NewAlert (buildAlert ob k (fst (getMarketInfo ob k s)) f (f # fs)),
                   Stats ((stats s)\<lparr> alertsTriggered := alertsTriggered (stats s) + 1 \<rparr>)] \<rparr>)"
  using assms by (simp add: checkAndAlert_def Let_def getMarketInfo_frame)

lemma checkAndAlert_throws:
  assumes "k \<notin> alertedOutcomes s"
    and "freshWalletThreshold cfg \<le> length (filter isFresh (betsOf (betsByOutcome s) k))"
    and "\<not> shouldFilterMarket (fst (getMarketInfo ob k s))"
    and "filter isFresh (betsOf (betsByOutcome s) k) = []"
  shows "checkAndAlert cfg ob k s =
     Inl (TypeError, (snd (getMarketInfo ob k s))
           \<lparr> alertedOutcomes := insert k (alertedOutcomes s),
              stats := (stats s)\<lparr> alertsTriggered := alertsTriggered (stats s) + 1 \<rparr> \<rparr>)"
  using assms by (simp add: checkAndAlert_def Let_def getMarketInfo_frame)

text \<open>The five ways a call of \<^verbatim>\<open>checkAndAlert\<close> can go.\<close>

lemma checkAndAlert_cases:
  obtains
    (silent) "checkAndAlert cfg ob k s = Inr s"
  | (update) a where "k \<in> alertedOutcomes s"
      "find (\<lambda>a. outcomeId a = k) (alerts s) = Some a"
      "checkAndAlert cfg ob k s =
         Inr (s\<lparr> alerts := updateFirst (\<lambda>a. outcomeId a = k)
                     (refreshAlert ob (filter isFresh (betsOf (betsByOutcome s) k))) (alerts s),
                   emitted := emitted s
                     @ [AlertUpdate (refreshAlert ob (filter isFresh (betsOf (betsByOutcome s) k))
                          a)] \<rparr>)"
  | (filtered) "k \<notin> alertedOutcomes s"
      "shouldFilterMarket (fst (getMarketInfo ob k s))"
      "checkAndAlert cfg ob k s =
         Inr ((snd (getMarketInfo ob k s))\<lparr> alertedOutcomes := insert k (alertedOutcomes s) \<rparr>)"
  | (fires) f fs where "k \<notin> alertedOutcomes s"
      "\<not> shouldFilterMarket (fst (getMarketInfo ob k s))"
      "checkAndAlert cfg ob k s =
         Inr ((snd (getMarketInfo ob k s))
           \<lparr> alertedOutcomes := insert k (alertedOutcomes s),
              stats := (stats s)\<lparr> alertsTriggered := alertsTriggered (stats s) + 1 \<rparr>,
              alerts := pushAlert (buildAlert ob k (fst (getMarketInfo ob k s)) f (f # fs)) (alerts s),
              emitted := emitted s
                @ [NewAlert (buildAlert ob k (fst (getMarketInfo ob k s)) f (f # fs)),
                   Stats ((stats s)\<lparr> alertsTriggered := alertsTriggered (stats s) + 1 \<rparr>)] \<rparr>)"
  | (throws) "k \<notin> alertedOutcomes s"
      "\<not> shouldFilterMarket (fst (getMarketInfo ob k s))"
      "checkAndAlert cfg ob k s =
         Inl (TypeError, (snd (getMarketInfo ob k s))
           \<lparr> alertedOutcomes := insert k (alertedOutcomes s),
              stats := (stats s)\<lparr> alertsTriggered := alertsTriggered (stats s) + 1 \<rparr> \<rparr>)"
proof (cases "k \<in> alertedOutcomes s")
  case True
  show ?thesis
  proof (cases "find (\<lambda>a. outcomeId a = k) (alerts s)")
    case None
    with True have "checkAndAlert cfg ob k s = Inr s"
      by (simp add: checkAndAlert_alerted)
    then show ?thesis by (rule silent)
  next
    case (Some a)
    with True show ?thesis
      by (intro update [of a]) (simp_all add: checkAndAlert_alerted)
  qed
next
  case False
  show ?thesis
  proof (cases "length (filter isFresh (betsOf (betsByOutcome s) k)) < freshWalletThreshold cfg")
    case True
    with False have "checkAndAlert cfg ob k s = Inr s"
      by (simp add: checkAndAlert_below)
    then show ?thesis by (rule silent)
  next
    case enough: False
    then have ge: "freshWalletThreshold cfg \<le> length (filter isFresh (betsOf (betsByOutcome s) k))"
      by simp
    show ?thesis
    proof (cases "shouldFilterMarket (fst (getMarketInfo ob k s))")
      case True
      with False ge show ?thesis
        by (intro filtered) (simp_all add: checkAndAlert_filtered)
    next
      case nf: False
      show ?thesis
      proof (cases "filter isFresh (betsOf (betsByOutcome s) k)")
        case Nil
        with False ge nf show ?thesis
          by (intro throws) (simp_all add: checkAndAlert_throws)
      next
        case (Cons f fs)
        with False ge nf show ?thesis
          by (intro fires [of f fs]) (simp_all add: checkAndAlert_fires)
      qed
    qed
  qed
qed

section \<open>Relations that depend on the alert state only\<close>

lemma processParticipant_core_lift:
  assumes trans: "\<And>a b c. R a b \<Longrightarrow> R b c \<Longrightarrow> R a c"
    and frame: "\<And>s s'. alertedOutcomes s' = alertedOutcomes s \<Longrightarrow> marketCache s' = marketCache s
        \<Longrightarrow> alerts s' = alerts s \<Longrightarrow> emitted s' = emitted s \<Longrightarrow> R s s'"
    and check: "\<And>k s. R s (stateOf (checkAndAlert cfg ob k s))"
  shows "R s (stateOf (processParticipant cfg ob ts tx p s))"
proof -
  obtain w k amt where p: "p = (w, k, amt)" by (cases p)
  obtain fresh s1 where f: "isWalletFresh ob w s = Inr (fresh, s1)"
    using isWalletFresh_returns by blast
  note fr = isWalletFresh_frame [OF f]
  show ?thesis
  proof (cases "w = ZeroAddress")
    case True
    with p show ?thesis by (simp add: processParticipant_zero stateOf_def frame)
  next
    case nz: False
    show ?thesis
    proof (cases fresh)
      case False
      with nz f p fr show ?thesis
        by (simp add: processParticipant_stale stateOf_def frame)
    next
      case True
      show ?thesis
      proof (cases "list_ex (sameWallet w) (betsOf (betsByOutcome s) k)")
        case tracked: True
        show ?thesis
          using nz f True tracked p fr
          by (simp add: processParticipant_tracked stateOf_def frame)
      next
        case untracked: False
        let ?pushed = "s1\<lparr> stats := (stats s1)\<lparr> freshWalletsDetected :=
                                  freshWalletsDetected (stats s1) + 1 \<rparr>,
                   betsByOutcome := AList.update k
                     (betsOf (betsByOutcome s) k
                        @ [\<lparr> wallet = w, timestamp = ts, txHash = tx, isFresh = True,
                              amount = of_nat amt / 1000000 \<rparr>])
                     (betsByOutcome s) \<rparr>"
        have "R s ?pushed" using fr by (intro frame) simp_all
        moreover have "R ?pushed (stateOf (checkAndAlert cfg ob k ?pushed))" by (rule check)
        ultimately have "R s (stateOf (checkAndAlert cfg ob k ?pushed))" by (rule trans)
        then show ?thesis
          using processParticipant_untracked [OF nz _ untracked, of ob s1 cfg ts tx amt] f True p
          by simp
      qed
    qed
  qed
qed

lemma processTrade_core_lift:
  assumes trans: "\<And>a b c. R a b \<Longrightarrow> R b c \<Longrightarrow> R a c"
    and frame: "\<And>s s'. alertedOutcomes s' = alertedOutcomes s \<Longrightarrow> marketCache s' = marketCache s
        \<Longrightarrow> alerts s' = alerts s \<Longrightarrow> emitted s' = emitted s \<Longrightarrow> R s s'"
    and check: "\<And>k s. R s (stateOf (checkAndAlert cfg ob k s))"
  shows "R s (stateOf (processTrade cfg ob ev s))"
proof -
  let ?s0 = "s\<lparr> stats := (stats s)\<lparr> totalTrades := totalTrades (stats s) + 1 \<rparr> \<rparr>"
  have refl: "R t t" for t by (rule frame) simp_all
  have "R s ?s0" by (rule frame) simp_all
  moreover have "R ?s0 (stateOf (forEach (processParticipant cfg ob (clock ob) (transactionHash ev))
      [(maker ev, toString (makerAssetId ev), makerAmountFilled ev),
       (taker ev, toString (takerAssetId ev), takerAmountFilled ev)] ?s0))"
  proof (rule forEach_lift [where R = R])
    show "R t t" for t by (rule refl)
    show "R a b \<Longrightarrow> R b c \<Longrightarrow> R a c" for a b c by (rule trans)
    show "R t (stateOf (processParticipant cfg ob (clock ob) (transactionHash ev) x t))" for x t
      using trans frame check by (rule processParticipant_core_lift)
  qed
  ultimately have "R s (stateOf (forEach (processParticipant cfg ob (clock ob) (transactionHash ev))
      [(maker ev, toString (makerAssetId ev), makerAmountFilled ev),
       (taker ev, toString (takerAssetId ev), takerAmountFilled ev)] ?s0))"
    by (rule trans)
  then show ?thesis
    by (simp add: processTrade_def Let_def)
qed

lemma runCycles_core_lift:
  assumes trans: "\<And>a b c. R a b \<Longrightarrow> R b c \<Longrightarrow> R a c"
    and frame: "\<And>s s'. alertedOutcomes s' = alertedOutcomes s \<Longrightarrow> marketCache s' = marketCache s
        \<Longrightarrow> alerts s' = alerts s \<Longrightarrow> emitted s' = emitted s \<Longrightarrow> R s s'"
    and check: "\<And>ob k s. Q ob \<Longrightarrow> R s (stateOf (checkAndAlert cfg ob k s))"
    and emit: "\<And>s. R s (s\<lparr> emitted := emitted s @ [Stats (stats s)] \<rparr>)"
    and obs: "list_all (answersSatisfy Q) chs"
  shows "R s (fst (runCycles cfg chs (s, c)))"
proof (rule runCycles_lift [where R = R and Q = Q])
  show "R t t" for t by (rule frame) simp_all
  show "R a b \<Longrightarrow> R b c \<Longrightarrow> R a c" for a b c by (rule trans)
  show "R t (stateOf (processTrade cfg ob ev t))" if "Q ob" for ob ev t
    using trans frame check [OF that] by (rule processTrade_core_lift)
  show "R t (t\<lparr> stats := (stats t)\<lparr> lastBlock := b \<rparr> \<rparr>)" for t b
    by (rule frame) simp_all
  show "R t (t\<lparr> betsByOutcome := cleanupOldBets cfg now (betsByOutcome t) \<rparr>)" for t now
    by (rule frame) simp_all
  show "R t (t\<lparr> emitted := emitted t @ [Stats (stats t)] \<rparr>)" for t by (rule emit)
  show "list_all (answersSatisfy Q) chs" by (rule obs)
qed

section \<open>Counting alert events\<close>

lemma newAlertsFor_simps [simp]:
  "newAlertsFor X [] = 0"
  "newAlertsFor X (evs @ evs') = newAlertsFor X evs + newAlertsFor X evs'"
  "newAlertsFor X (NewAlert a # evs) = (if outcomeId a = X then 1 else 0) + newAlertsFor X evs"
  "newAlertsFor X (AlertUpdate a # evs) = newAlertsFor X evs"
  "newAlertsFor X (Stats st # evs) = newAlertsFor X evs"
  by (simp_all add: newAlertsFor_def isNewAlertFor_def)

lemma alertUpdatesFor_simps [simp]:
  "alertUpdatesFor X [] = 0"
  "alertUpdatesFor X (evs @ evs') = alertUpdatesFor X evs + alertUpdatesFor X evs'"
  "alertUpdatesFor X (NewAlert a # evs) = alertUpdatesFor X evs"
  "alertUpdatesFor X (AlertUpdate a # evs) = (if outcomeId a = X then 1 else 0) + alertUpdatesFor X evs"
  "alertUpdatesFor X (Stats st # evs) = alertUpdatesFor X evs"
  by (simp_all add: alertUpdatesFor_def isAlertUpdateFor_def)

section \<open>At most one new alert per outcome\<close>

lemma checkAndAlert_once:
  "alertedOutcomes s \<subseteq> alertedOutcomes (stateOf (checkAndAlert cfg ob k s))
   \<and> (\<exists>evs. emitted (stateOf (checkAndAlert cfg ob k s)) = emitted s @ evs
         \<and> newAlertsFor X evs \<le> (if X \<in> alertedOutcomes s then 0
              else if X \<in> alertedOutcomes (stateOf (checkAndAlert cfg ob k s)) then 1 else 0))"
proof (cases rule: checkAndAlert_cases [of cfg ob k s])
  case silent
  then show ?thesis by (simp add: stateOf_def)
next
  case (update a)
  then show ?thesis by (simp add: stateOf_def)
next
  case filtered
  then show ?thesis by (auto simp: stateOf_def getMarketInfo_frame)
next
  case (fires f fs)
  then show ?thesis by (auto simp: stateOf_def getMarketInfo_frame)
next
  case throws
  then show ?thesis by (auto simp: stateOf_def getMarketInfo_frame)
qed

lemma runCycles_once:
  "alertedOutcomes s \<subseteq> alertedOutcomes (fst (runCycles cfg chs (s, c)))
   \<and> (\<exists>evs. emitted (fst (runCycles cfg chs (s, c))) = emitted s @ evs
         \<and> newAlertsFor X evs \<le> (if X \<in> alertedOutcomes s then 0
              else if X \<in> alertedOutcomes (fst (runCycles cfg chs (s, c))) then 1 else 0))"
proof -
  let ?R = "\<lambda>s s'. alertedOutcomes s \<subseteq> alertedOutcomes s'
     \<and> (\<exists>evs. emitted s' = emitted s @ evs
         \<and> newAlertsFor X evs \<le> (if X \<in> alertedOutcomes s then 0
              else if X \<in> alertedOutcomes s' then 1 else 0))"
  have allObs: "list_all (answersSatisfy (\<lambda>ob. True)) chs"
    by (simp add: list_all_iff answersSatisfy_def list.pred_True split: sum.splits)
  have "?R s (fst (runCycles cfg chs (s, c)))"
  proof (rule runCycles_core_lift [where R = ?R and Q = "\<lambda>ob. True"])
    show "?R a c" if ab: "?R a b" and bc: "?R b c" for a b c
    proof -
      from ab obtain e1 where e1: "emitted b = emitted a @ e1"
        "newAlertsFor X e1 \<le> (if X \<in> alertedOutcomes a then 0
              else if X \<in> alertedOutcomes b then 1 else 0)" by blast
      from bc obtain e2 where e2: "emitted c = emitted b @ e2"
        "newAlertsFor X e2 \<le> (if X \<in> alertedOutcomes b then 0
              else if X \<in> alertedOutcomes c then 1 else 0)" by blast
      have sub: "alertedOutcomes a \<subseteq> alertedOutcomes b" "alertedOutcomes b \<subseteq> alertedOutcomes c"
        using ab bc by simp_all
      have "emitted c = emitted a @ (e1 @ e2)" using e1 e2 by simp
      moreover have "newAlertsFor X (e1 @ e2) \<le> (if X \<in> alertedOutcomes a then 0
              else if X \<in> alertedOutcomes c then 1 else 0)"
        using e1(2) e2(2) sub by (auto split: if_splits)
      ultimately show ?thesis using sub by blast
    qed
    show "?R t t'" if "alertedOutcomes t' = alertedOutcomes t" "marketCache t' = marketCache t"
      "alerts t' = alerts t" "emitted t' = emitted t" for t t'
      using that by simp
    show "?R t (stateOf (checkAndAlert cfg ob k t))" for ob k t
      by (rule checkAndAlert_once)
    show "?R t (t\<lparr> emitted := emitted t @ [Stats (stats t)] \<rparr>)" for t
      by simp
    show "list_all (answersSatisfy (\<lambda>ob. True)) chs" by (rule allObs)
  qed
  then show ?thesis .
qed

section \<open>Feeding fresh bets to one outcome\<close>

lemma freshVerdict_cong:
  assumes "map_of (walletCache s) (toLowerCase w) = map_of (walletCache t) (toLowerCase w)"
  shows "freshVerdict ob w s = freshVerdict ob w t"
proof (cases "cacheValid ob w s")
  case True
  then have "cacheValid ob w t" using assms by (simp add: cacheValid_def)
  with True show ?thesis
    using isWalletFresh_hit [of ob w s] isWalletFresh_hit [of ob w t] assms
    by (auto simp: freshVerdict_def)
next
  case False
  then have "\<not> cacheValid ob w t" using assms by (simp add: cacheValid_def)
  with False show ?thesis
    by (simp add: freshVerdict_def isWalletFresh_miss split: sum.splits)
qed

lemma getMarketInfo_cong:
  assumes "map_of (marketCache s) k = map_of (marketCache t) k"
  shows "fst (getMarketInfo ob k s) = fst (getMarketInfo ob k t)"
  using assms
  by (simp add: getMarketInfo_def split: option.splits fetchResult.splits list.splits sum.splits)

lemma checkAndAlert_walletCache:
  "walletCache (stateOf (checkAndAlert cfg ob k s)) = walletCache s"
  by (cases rule: checkAndAlert_cases [of cfg ob k s])
     (simp_all add: stateOf_def getMarketInfo_frame)

lemma feed_step:
  assumes nz: "w \<noteq> ZeroAddress" and fresh: "freshVerdict ob w s"
    and untracked: "\<not> list_ex (sameWallet w) (betsOf (betsByOutcome s) X)"
  shows "\<exists>pushed. processParticipant cfg ob ts tx (w, X, amt) s = checkAndAlert cfg ob X pushed
     \<and> alertedOutcomes pushed = alertedOutcomes s \<and> marketCache pushed = marketCache s
     \<and> alerts pushed = alerts s \<and> emitted pushed = emitted s
     \<and> betsOf (betsByOutcome pushed) X = betsOf (betsByOutcome s) X
          @ [\<lparr> wallet = w, timestamp = ts, txHash = tx, isFresh = True,
                amount = of_nat amt / 1000000 \<rparr>]
     \<and> (\<forall>k. k \<noteq> toLowerCase w \<longrightarrow> map_of (walletCache pushed) k = map_of (walletCache s) k)"
proof -
  obtain s1 where f: "isWalletFresh ob w s = Inr (True, s1)"
    using fresh freshVerdictD by blast
  note fr = isWalletFresh_frame [OF f]
  let ?pushed = "s1\<lparr> stats := (stats s1)\<lparr> freshWalletsDetected :=
                                  freshWalletsDetected (stats s1) + 1 \<rparr>,
                   betsByOutcome := AList.update X
                     (betsOf (betsByOutcome s) X
                        @ [\<lparr> wallet = w, timestamp = ts, txHash = tx, isFresh = True,
                              amount = of_nat amt / 1000000 \<rparr>])
                     (betsByOutcome s) \<rparr>"
  have "processParticipant cfg ob ts tx (w, X, amt) s = checkAndAlert cfg ob X ?pushed"
    using nz f untracked by (rule processParticipant_untracked)
  moreover have "\<forall>k. k \<noteq> toLowerCase w \<longrightarrow> map_of (walletCache ?pushed) k = map_of (walletCache s) k"
    using isWalletFresh_cache_other [OF f] by simp
  ultimately show ?thesis
    using fr by (intro exI [of _ ?pushed]) (simp add: betsOf_update_same)
qed

lemma feedable_step:
  assumes ok: "feedable X (b # bs) s"
    and bucket: "betsOf (betsByOutcome s') X = betsOf (betsByOutcome s) X @ [e]"
    and who: "wallet e = betWallet b"
    and cache: "\<forall>k. k \<noteq> toLowerCase (betWallet b)
                 \<longrightarrow> map_of (walletCache s') k = map_of (walletCache s) k"
  shows "feedable X bs s'"
proof -
  have d: "distinct (map (\<lambda>b. toLowerCase (betWallet b)) bs)"
    using ok by (simp add: feedable_def)
  have "betWallet c \<noteq> ZeroAddress
        \<and> freshVerdict (betObs c) (betWallet c) s'
        \<and> \<not> list_ex (sameWallet (betWallet c)) (betsOf (betsByOutcome s') X)"
    if c: "c \<in> set bs" for c
  proof -
    have old: "betWallet c \<noteq> ZeroAddress" "freshVerdict (betObs c) (betWallet c) s"
      "\<not> list_ex (sameWallet (betWallet c)) (betsOf (betsByOutcome s) X)"
      using ok c by (auto simp: feedable_def list_all_iff)
    have "toLowerCase (betWallet b) \<notin> (\<lambda>b. toLowerCase (betWallet b)) ` set bs"
      using ok by (simp add: feedable_def)
    then have ne: "toLowerCase (betWallet c) \<noteq> toLowerCase (betWallet b)"
      using c by (metis imageI)
    then have "map_of (walletCache s') (toLowerCase (betWallet c))
        = map_of (walletCache s) (toLowerCase (betWallet c))"
      using cache by simp
    then have "freshVerdict (betObs c) (betWallet c) s' = freshVerdict (betObs c) (betWallet c) s"
      by (rule freshVerdict_cong)
    moreover have "\<not> sameWallet (betWallet c) e"
      using ne who by (simp add: sameWallet_def)
    ultimately show ?thesis
      using old bucket by simp
  qed
  then show ?thesis
    using d by (simp add: feedable_def list_all_iff)
qed

lemma find_updateFirst:
  assumes "\<And>x. P (f x) = P x"
  shows "(find P (updateFirst P f xs) = None) = (find P xs = None)"
  by (induction xs) (simp_all add: assms)

lemma feedBets_Cons:
  "feedBets cfg X (b # bs) s =
     (case processParticipant cfg (betObs b) (betTime b) (betTx b) (betWallet b, X, betAmount b) s of
        Inl r \<Rightarrow> Inl r
      | Inr s' \<Rightarrow> feedBets cfg X bs s')"
  by (simp add: feedBets_def split: sum.splits)

lemma feed_alerted:
  assumes "X \<in> alertedOutcomes s"
    and "find (\<lambda>a. outcomeId a = X) (alerts s) \<noteq> None"
    and "feedable X bs s"
  shows "\<exists>s'. feedBets cfg X bs s = Inr s'
           \<and> (\<exists>evs. emitted s' = emitted s @ evs
                 \<and> newAlertsFor X evs = 0 \<and> alertUpdatesFor X evs = length bs)"
  using assms
proof (induction bs arbitrary: s)
  case Nil
  then show ?case by (simp add: feedBets_def)
next
  case (Cons b bs)
  have item: "betWallet b \<noteq> ZeroAddress" "freshVerdict (betObs b) (betWallet b) s"
    "\<not> list_ex (sameWallet (betWallet b)) (betsOf (betsByOutcome s) X)"
    using Cons.prems(3) by (simp_all add: feedable_def)
  from feed_step [OF item, of cfg "betTime b" "betTx b" "betAmount b"]
  obtain pushed where p:
    "processParticipant cfg (betObs b) (betTime b) (betTx b) (betWallet b, X, betAmount b) s
       = checkAndAlert cfg (betObs b) X pushed"
    "alertedOutcomes pushed = alertedOutcomes s" "marketCache pushed = marketCache s"
    "alerts pushed = alerts s" "emitted pushed = emitted s"
    "betsOf (betsByOutcome pushed) X = betsOf (betsByOutcome s) X
          @ [\<lparr> wallet = betWallet b, timestamp = betTime b, txHash = betTx b, isFresh = True,
                amount = of_nat (betAmount b) / 1000000 \<rparr>]"
    "\<forall>k. k \<noteq> toLowerCase (betWallet b) \<longrightarrow> map_of (walletCache pushed) k = map_of (walletCache s) k"
    by blast
  obtain a where a: "find (\<lambda>a. outcomeId a = X) (alerts pushed) = Some a"
    using Cons.prems(2) p(4) by auto
  let ?fresh = "filter isFresh (betsOf (betsByOutcome pushed) X)"
  let ?s1 = "pushed\<lparr> alerts := updateFirst (\<lambda>a. outcomeId a = X) (refreshAlert (betObs b) ?fresh)
                          (alerts pushed),
                     emitted := emitted pushed @ [AlertUpdate (refreshAlert (betObs b) ?fresh a)] \<rparr>"
  have step: "checkAndAlert cfg (betObs b) X pushed = Inr ?s1"
    using Cons.prems(1) p(2) a by (simp add: checkAndAlert_alerted)
  have "feedable X bs ?s1"
    using Cons.prems(3)
  proof (rule feedable_step)
    show "betsOf (betsByOutcome ?s1) X = betsOf (betsByOutcome s) X
          @ [\<lparr> wallet = betWallet b, timestamp = betTime b, txHash = betTx b, isFresh = True,
                amount = of_nat (betAmount b) / 1000000 \<rparr>]"
      using p(6) by simp
    show "wallet \<lparr> wallet = betWallet b, timestamp = betTime b, txHash = betTx b, isFresh = True,
                amount = of_nat (betAmount b) / 1000000 \<rparr> = betWallet b" by simp
    show "\<forall>k. k \<noteq> toLowerCase (betWallet b)
                 \<longrightarrow> map_of (walletCache ?s1) k = map_of (walletCache s) k"
      using p(7) by simp
  qed
  moreover have "X \<in> alertedOutcomes ?s1" using Cons.prems(1) p(2) by simp
  moreover have "find (\<lambda>a. outcomeId a = X) (alerts ?s1) \<noteq> None"
    using a by (simp add: find_updateFirst)
  ultimately obtain s' evs where rest: "feedBets cfg X bs ?s1 = Inr s'"
    "emitted s' = emitted ?s1 @ evs" "newAlertsFor X evs = 0" "alertUpdatesFor X evs = length bs"
    using Cons.IH [of ?s1] by blast
  have "outcomeId a = X" using a by (rule find_outcome)
  then have "emitted s' = emitted s @ (AlertUpdate (refreshAlert (betObs b) ?fresh a) # evs)
      \<and> newAlertsFor X (AlertUpdate (refreshAlert (betObs b) ?fresh a) # evs) = 0
      \<and> alertUpdatesFor X (AlertUpdate (refreshAlert (betObs b) ?fresh a) # evs) = length (b # bs)"
    using rest p(5) by simp
  moreover have "feedBets cfg X (b # bs) s = Inr s'"
    using p(1) step rest(1) by (simp add: feedBets_Cons)
  ultimately show ?case by blast
qed

lemma find_pushAlert:
  assumes "P a"
  shows "find P (pushAlert a as) \<noteq> None"
proof (cases as)
  case Nil
  with assms show ?thesis by (simp add: pushAlert_def)
next
  case (Cons x xs)
  with assms show ?thesis by (simp add: pushAlert_def Let_def)
qed

lemma passesFilter_cong:
  assumes "marketCache s' = marketCache s"
  shows "passesFilter X bs s' = passesFilter X bs s"
proof -
  have "fst (getMarketInfo ob X s') = fst (getMarketInfo ob X s)" for ob
    using assms by (intro getMarketInfo_cong) simp
  then show ?thesis by (simp add: passesFilter_def)
qed

lemma feed_below:
  assumes "X \<notin> alertedOutcomes s"
    and "list_all isFresh (betsOf (betsByOutcome s) X)"
    and "length (betsOf (betsByOutcome s) X) < freshWalletThreshold cfg"
    and "feedable X bs s"
    and "passesFilter X bs s"
  shows "\<exists>s'. feedBets cfg X bs s = Inr s'
           \<and> (\<exists>evs. emitted s' = emitted s @ evs
                 \<and> (if length (betsOf (betsByOutcome s) X) + length bs < freshWalletThreshold cfg
                     then newAlertsFor X evs = 0 \<and> alertUpdatesFor X evs = 0
                     else newAlertsFor X evs = 1
                          \<and> alertUpdatesFor X evs
                              = length (betsOf (betsByOutcome s) X) + length bs
                                  - freshWalletThreshold cfg))"
  using assms
proof (induction bs arbitrary: s)
  case Nil
  then show ?case by (simp add: feedBets_def)
next
  case (Cons b bs)
  let ?n = "length (betsOf (betsByOutcome s) X)"
  let ?e = "\<lparr> wallet = betWallet b, timestamp = betTime b, txHash = betTx b, isFresh = True,
                amount = of_nat (betAmount b) / 1000000 \<rparr>"
  have item: "betWallet b \<noteq> ZeroAddress" "freshVerdict (betObs b) (betWallet b) s"
    "\<not> list_ex (sameWallet (betWallet b)) (betsOf (betsByOutcome s) X)"
    using Cons.prems(4) by (simp_all add: feedable_def)
  from feed_step [OF item, of cfg "betTime b" "betTx b" "betAmount b"]
  obtain pushed where p:
    "processParticipant cfg (betObs b) (betTime b) (betTx b) (betWallet b, X, betAmount b) s
       = checkAndAlert cfg (betObs b) X pushed"
    "alertedOutcomes pushed = alertedOutcomes s" "marketCache pushed = marketCache s"
    "alerts pushed = alerts s" "emitted pushed = emitted s"
    "betsOf (betsByOutcome pushed) X = betsOf (betsByOutcome s) X @ [?e]"
    "\<forall>k. k \<noteq> toLowerCase (betWallet b) \<longrightarrow> map_of (walletCache pushed) k = map_of (walletCache s) k"
    by blast
  have allFresh: "list_all isFresh (betsOf (betsByOutcome pushed) X)"
    using Cons.prems(2) p(6) by simp
  then have fresh: "filter isFresh (betsOf (betsByOutcome pushed) X) = betsOf (betsByOutcome pushed) X"
    by (simp add: list_all_iff)
  have notAlerted: "X \<notin> alertedOutcomes pushed" using Cons.prems(1) p(2) by simp
  show ?case
  proof (cases "?n + 1 < freshWalletThreshold cfg")
    case True
    then have "checkAndAlert cfg (betObs b) X pushed = Inr pushed"
      using notAlerted fresh p(6) by (intro checkAndAlert_below) simp_all
    then have step: "feedBets cfg X (b # bs) s = feedBets cfg X bs pushed"
      using p(1) by (simp add: feedBets_Cons)
    have f1: "feedable X bs pushed"
      using Cons.prems(4) p(6) _ p(7) by (rule feedable_step) simp
    have f2: "passesFilter X bs pushed"
    proof -
      have "passesFilter X bs s" using Cons.prems(5) by (simp add: passesFilter_def)
      then show ?thesis using passesFilter_cong [OF p(3), of X bs] by simp
    qed
    have f3: "length (betsOf (betsByOutcome pushed) X) < freshWalletThreshold cfg"
      using True p(6) by simp
    have "\<exists>s'. feedBets cfg X bs pushed = Inr s'
           \<and> (\<exists>evs. emitted s' = emitted pushed @ evs
                 \<and> (if length (betsOf (betsByOutcome pushed) X) + length bs
                          < freshWalletThreshold cfg
                     then newAlertsFor X evs = 0 \<and> alertUpdatesFor X evs = 0
                     else newAlertsFor X evs = 1
                          \<and> alertUpdatesFor X evs
                              = length (betsOf (betsByOutcome pushed) X) + length bs
                                  - freshWalletThreshold cfg))"
      using notAlerted allFresh f3 f1 f2 by (rule Cons.IH)
    then obtain s' evs where rest: "feedBets cfg X bs pushed = Inr s'"
      "emitted s' = emitted pushed @ evs"
      "if length (betsOf (betsByOutcome pushed) X) + length bs < freshWalletThreshold cfg
       then newAlertsFor X evs = 0 \<and> alertUpdatesFor X evs = 0
       else newAlertsFor X evs = 1
            \<and> alertUpdatesFor X evs
                = length (betsOf (betsByOutcome pushed) X) + length bs - freshWalletThreshold cfg"
      by (elim exE conjE)
    have counts: "if ?n + length (b # bs) < freshWalletThreshold cfg
       then newAlertsFor X evs = 0 \<and> alertUpdatesFor X evs = 0
       else newAlertsFor X evs = 1
            \<and> alertUpdatesFor X evs = ?n + length (b # bs) - freshWalletThreshold cfg"
      using rest(3) p(6) by simp
    have out: "emitted s' = emitted s @ evs"
      using rest(2) p(5) by simp
    have fed: "feedBets cfg X (b # bs) s = Inr s'"
      using step rest(1) by simp
    show ?thesis
      using fed out counts by (intro exI [of _ s'] conjI exI [of _ evs])
  next
    case False
    then have cross: "freshWalletThreshold cfg = ?n + 1"
      using Cons.prems(3) by simp
    have ge: "freshWalletThreshold cfg
        \<le> length (filter isFresh (betsOf (betsByOutcome pushed) X))"
      using cross fresh p(6) by simp
    have "\<not> shouldFilterMarket (fst (getMarketInfo (betObs b) X s))"
      using Cons.prems(5) by (simp add: passesFilter_def)
    moreover have "fst (getMarketInfo (betObs b) X pushed) = fst (getMarketInfo (betObs b) X s)"
      using p(3) by (intro getMarketInfo_cong) simp
    ultimately have nf: "\<not> shouldFilterMarket (fst (getMarketInfo (betObs b) X pushed))"
      by simp
    have "betsOf (betsByOutcome pushed) X \<noteq> []" using p(6) by simp
    then obtain f fs where "betsOf (betsByOutcome pushed) X = f # fs"
      by (cases "betsOf (betsByOutcome pushed) X") auto
    then have ffs: "filter isFresh (betsOf (betsByOutcome pushed) X) = f # fs"
      using fresh by simp
    let ?info = "fst (getMarketInfo (betObs b) X pushed)"
    let ?new = "buildAlert (betObs b) X ?info f (f # fs)"
    let ?st = "(stats pushed)\<lparr> alertsTriggered := alertsTriggered (stats pushed) + 1 \<rparr>"
    let ?s1 = "(snd (getMarketInfo (betObs b) X pushed))
           \<lparr> alertedOutcomes := insert X (alertedOutcomes pushed),
              stats := ?st,
              alerts := pushAlert ?new (alerts pushed),
              emitted := emitted pushed @ [NewAlert ?new, Stats ?st] \<rparr>"
    have fire: "checkAndAlert cfg (betObs b) X pushed = Inr ?s1"
      using notAlerted ge nf ffs by (rule checkAndAlert_fires)
    then have step: "feedBets cfg X (b # bs) s = feedBets cfg X bs ?s1"
      using p(1) by (simp add: feedBets_Cons)
    have g1: "feedable X bs ?s1"
      using Cons.prems(4)
    proof (rule feedable_step)
      show "betsOf (betsByOutcome ?s1) X = betsOf (betsByOutcome s) X @ [?e]"
        using p(6) by (simp add: getMarketInfo_frame)
      show "wallet ?e = betWallet b" by simp
      show "\<forall>k. k \<noteq> toLowerCase (betWallet b)
                 \<longrightarrow> map_of (walletCache ?s1) k = map_of (walletCache s) k"
        using p(7) by (simp add: getMarketInfo_frame)
    qed
    have g2: "X \<in> alertedOutcomes ?s1" by simp
    have g3: "find (\<lambda>a. outcomeId a = X) (alerts ?s1) \<noteq> None"
      by (simp add: find_pushAlert)
    have "\<exists>s'. feedBets cfg X bs ?s1 = Inr s'
           \<and> (\<exists>evs. emitted s' = emitted ?s1 @ evs
                 \<and> newAlertsFor X evs = 0 \<and> alertUpdatesFor X evs = length bs)"
      using g2 g3 g1 by (rule feed_alerted)
    then obtain s' evs where rest: "feedBets cfg X bs ?s1 = Inr s'"
      "emitted s' = emitted ?s1 @ evs" "newAlertsFor X evs = 0" "alertUpdatesFor X evs = length bs"
      by (elim exE conjE)
    let ?evs = "NewAlert ?new # Stats ?st # evs"
    have out: "emitted s' = emitted s @ ?evs"
      using rest(2) p(5) by simp
    have new: "newAlertsFor X ?evs = 1"
      using rest(3) by simp
    have upd: "alertUpdatesFor X ?evs = ?n + length (b # bs) - freshWalletThreshold cfg"
      using rest(4) cross by simp
    have over: "\<not> ?n + length (b # bs) < freshWalletThreshold cfg"
      using cross by simp
    have counts: "if ?n + length (b # bs) < freshWalletThreshold cfg
       then newAlertsFor X ?evs = 0 \<and> alertUpdatesFor X ?evs = 0
       else newAlertsFor X ?evs = 1
            \<and> alertUpdatesFor X ?evs = ?n + length (b # bs) - freshWalletThreshold cfg"
      using new upd over by (simp only: if_False simp_thms)
    have fed: "feedBets cfg X (b # bs) s = Inr s'"
      using step rest(1) by simp
    show ?thesis
      using fed out counts by (intro exI [of _ s'] conjI exI [of _ ?evs])
  qed
qed

text \<open>
  Claim C1. Take an outcome that has not been alerted and has no entry in the ledger,
  a positive threshold, and a list of at least threshold fresh new-wallet bets on the
  outcome whose market passes the content filter. Feeding the bets returns normally
  and emits, for that outcome, exactly one \<^verbatim>\<open>newAlert\<close> event and one
  \<^verbatim>\<open>alertUpdate\<close> event for each bet after the one that reached the threshold, that is
  \<open>length bs - threshold\<close> of them. Moreover no run of the polling loop, from any
  state, adds more than one \<^verbatim>\<open>newAlert\<close> event of an outcome, and a run from the initial
  state has emitted at most one in all.
\<close>

theorem alert_created_exactly_once:
  assumes "0 < freshWalletThreshold cfg"
    and "X \<notin> alertedOutcomes s"
    and "betsOf (betsByOutcome s) X = []"
    and "feedable X bs s"
    and "passesFilter X bs s"
    and "freshWalletThreshold cfg \<le> length bs"
  shows "(\<exists>s'. feedBets cfg X bs s = Inr s'
           \<and> (\<exists>evs. emitted s' = emitted s @ evs
                 \<and> newAlertsFor X evs = 1
                 \<and> alertUpdatesFor X evs = length bs - freshWalletThreshold cfg))
     \<and> (\<exists>evs. emitted (fst (runCycles cfg chs (s, c))) = emitted s @ evs
           \<and> newAlertsFor X evs \<le> 1)
     \<and> newAlertsFor X (emitted (fst (runCycles cfg chs (initialState t0, c)))) \<le> 1"
proof -
  have "\<exists>s'. feedBets cfg X bs s = Inr s'
           \<and> (\<exists>evs. emitted s' = emitted s @ evs
                 \<and> (if length (betsOf (betsByOutcome s) X) + length bs < freshWalletThreshold cfg
                     then newAlertsFor X evs = 0 \<and> alertUpdatesFor X evs = 0
                     else newAlertsFor X evs = 1
                          \<and> alertUpdatesFor X evs
                              = length (betsOf (betsByOutcome s) X) + length bs
                                  - freshWalletThreshold cfg))"
    using assms by (intro feed_below) simp_all
  then have feed: "\<exists>s'. feedBets cfg X bs s = Inr s'
           \<and> (\<exists>evs. emitted s' = emitted s @ evs
                 \<and> newAlertsFor X evs = 1
                 \<and> alertUpdatesFor X evs = length bs - freshWalletThreshold cfg)"
    using assms(3,6) by simp
  have run: "\<exists>evs. emitted (fst (runCycles cfg chs (t, c))) = emitted t @ evs
           \<and> newAlertsFor X evs \<le> 1" for t
    using runCycles_once [of t cfg chs c X] by (auto split: if_splits)
  from run [of "initialState t0"]
  have "newAlertsFor X (emitted (fst (runCycles cfg chs (initialState t0, c)))) \<le> 1"
    by (auto simp: initialState_def)
  with feed run [of s] show ?thesis by blast
qed

lemma freshVerdict_first_sight:
  assumes "map_of (walletCache s) (toLowerCase w) = None"
    and "getTransactionCount ob w = Inr n" and "n \<le> 2"
  shows "freshVerdict ob w s"
proof -
  have "\<not> cacheValid ob w s" using assms(1) by (simp add: cacheValid_def)
  then show ?thesis
    using assms by (simp add: freshVerdict_def isWalletFresh_miss)
qed

lemma rain_resolved:
  "fst (getMarketInfo (rainWorld t) ''7'' (initialState t0)) = Some rainInfo"
  by (simp add: getMarketInfo_def initialState_def rainWorld_def marketInfoOf_def rainMarket_def
      rainInfo_def orDefault_def elemAt_def truthy_def units_def)

lemma rain_passes: "\<not> shouldFilterMarket (Some rainInfo)"
  by code_simp

lemma line_separator_passes:
  "\<not> shouldFilterMarket (Some (btcInfo\<lparr> question := lineSeparatorQuestion \<rparr>))"
  by code_simp

lemma line_separator_resolved:
  "fst (getMarketInfo (lineSeparatorWorld t) ''7'' (initialState t0))
     = Some (btcInfo\<lparr> question := lineSeparatorQuestion \<rparr>)"
  by (simp add: getMarketInfo_def initialState_def lineSeparatorWorld_def marketInfoOf_def
      btcMarket_def btcInfo_def orDefault_def elemAt_def truthy_def lineSeparatorQuestion_def
      units_def)

theorem alert_created_exactly_once_witness:
  "0 < freshWalletThreshold scenarioConfig
   \<and> ''7'' \<notin> alertedOutcomes (initialState 0)
   \<and> betsOf (betsByOutcome (initialState 0)) ''7'' = []
   \<and> feedable ''7'' fourBets (initialState 0)
   \<and> passesFilter ''7'' fourBets (initialState 0)
   \<and> freshWalletThreshold scenarioConfig \<le> length fourBets
   \<and> (\<exists>s'. feedBets scenarioConfig ''7'' fourBets (initialState 0) = Inr s'
          \<and> newAlertsFor ''7'' (emitted s') = 1
          \<and> alertUpdatesFor ''7'' (emitted s') = 1)
   \<and> feedable ''7'' (fourBetsIn lineSeparatorWorld) (initialState 0)
   \<and> passesFilter ''7'' (fourBetsIn lineSeparatorWorld) (initialState 0)
   \<and> freshWalletThreshold scenarioConfig \<le> length (fourBetsIn lineSeparatorWorld)
   \<and> (\<exists>s'. feedBets scenarioConfig ''7'' (fourBetsIn lineSeparatorWorld) (initialState 0) = Inr s'
          \<and> newAlertsFor ''7'' (emitted s') = 1
          \<and> alertUpdatesFor ''7'' (emitted s') = 1)"
proof -
  have h1: "0 < freshWalletThreshold scenarioConfig" by (simp add: scenarioConfig_def)
  have h2: "''7'' \<notin> alertedOutcomes (initialState 0)" by (simp add: initialState_def)
  have h3: "betsOf (betsByOutcome (initialState 0)) ''7'' = []"
    by (simp add: initialState_def betsOf_def)
  have fresh: "freshVerdict (rainWorld t) w (initialState 0)" for t w
    by (rule freshVerdict_first_sight [of _ _ _ 1]) (simp_all add: initialState_def rainWorld_def)
  have h4: "feedable ''7'' fourBets (initialState 0)"
    unfolding feedable_def h3
    by (simp add: fourBets_def fresh ZeroAddress_def toLowerCase_def lowerChar_def)
  have h5: "passesFilter ''7'' fourBets (initialState 0)"
    by (simp add: passesFilter_def fourBets_def rain_resolved rain_passes)
  have h6: "freshWalletThreshold scenarioConfig \<le> length fourBets"
    by (simp add: scenarioConfig_def fourBets_def)
  have "\<exists>s'. feedBets scenarioConfig ''7'' fourBets (initialState 0) = Inr s'
           \<and> (\<exists>evs. emitted s' = emitted (initialState 0) @ evs
                 \<and> newAlertsFor ''7'' evs = 1
                 \<and> alertUpdatesFor ''7'' evs
                     = length fourBets - freshWalletThreshold scenarioConfig)"
    using alert_created_exactly_once [OF h1 h2 h3 h4 h5 h6, of "[]" 0 0] by blast
  then have rain: "\<exists>s'. feedBets scenarioConfig ''7'' fourBets (initialState 0) = Inr s'
          \<and> newAlertsFor ''7'' (emitted s') = 1
          \<and> alertUpdatesFor ''7'' (emitted s') = 1"
    by (auto simp: initialState_def scenarioConfig_def fourBets_def)
  have freshL: "freshVerdict (lineSeparatorWorld t) w (initialState 0)" for t w
    by (rule freshVerdict_first_sight [of _ _ _ 1])
       (simp_all add: initialState_def lineSeparatorWorld_def)
  have l4: "feedable ''7'' (fourBetsIn lineSeparatorWorld) (initialState 0)"
    unfolding feedable_def h3
    by (simp add: fourBetsIn_def fourBets_def freshL ZeroAddress_def toLowerCase_def lowerChar_def)
  have l5: "passesFilter ''7'' (fourBetsIn lineSeparatorWorld) (initialState 0)"
    by (simp add: passesFilter_def fourBetsIn_def fourBets_def line_separator_resolved
        line_separator_passes)
  have l6: "freshWalletThreshold scenarioConfig \<le> length (fourBetsIn lineSeparatorWorld)"
    by (simp add: scenarioConfig_def fourBetsIn_def fourBets_def)
  have "\<exists>s'. feedBets scenarioConfig ''7'' (fourBetsIn lineSeparatorWorld) (initialState 0) = Inr s'
           \<and> (\<exists>evs. emitted s' = emitted (initialState 0) @ evs
                 \<and> newAlertsFor ''7'' evs = 1
                 \<and> alertUpdatesFor ''7'' evs
                     = length (fourBetsIn lineSeparatorWorld) - freshWalletThreshold scenarioConfig)"
    using alert_created_exactly_once [OF h1 h2 h3 l4 l5 l6, of "[]" 0 0] by blast
  then have sep: "\<exists>s'. feedBets scenarioConfig ''7'' (fourBetsIn lineSeparatorWorld) (initialState 0)
              = Inr s'
          \<and> newAlertsFor ''7'' (emitted s') = 1
          \<and> alertUpdatesFor ''7'' (emitted s') = 1"
    by (auto simp: initialState_def scenarioConfig_def fourBetsIn_def fourBets_def)
  from h1 h2 h3 h4 h5 h6 rain l4 l5 l6 sep show ?thesis by blast
qed

section \<open>Filtered and suppressed outcomes\<close>

lemma getMarketInfo_other:
  "k' \<noteq> k \<Longrightarrow> map_of (marketCache (snd (getMarketInfo ob k s))) k' = map_of (marketCache s) k'"
  by (simp add: getMarketInfo_def update_conv'
      split: option.splits fetchResult.splits list.splits sum.splits)

lemma getMarketInfo_resolved:
  "fst (getMarketInfo ob k s) = Some mi
     \<Longrightarrow> map_of (marketCache (snd (getMarketInfo ob k s))) k = Some mi"
  by (auto simp: getMarketInfo_def update_conv'
      split: option.splits fetchResult.splits list.splits sum.splits)

lemma getMarketInfo_hit:
  "map_of (marketCache s) k = Some mi \<Longrightarrow> fst (getMarketInfo ob k s) = Some mi"
  by (simp add: getMarketInfo_def)

lemma shouldFilterMarket_None [simp]: "\<not> shouldFilterMarket None"
  by (simp add: shouldFilterMarket_def)

lemma list_all_updateFirst:
  assumes "\<And>x. P (f x) = P x"
  shows "list_all P (updateFirst Q f xs) = list_all P xs"
  by (induction xs) (simp_all add: assms)

lemma list_all_pushAlert:
  assumes "P a" and "list_all P as"
  shows "list_all P (pushAlert a as)"
proof -
  have "set (butlast (a # as)) \<subseteq> set (a # as)"
    by (metis in_set_butlastD subsetI)
  then show ?thesis
    using assms by (auto simp: pushAlert_def Let_def list_all_iff)
qed

text \<open>Resolving another outcome leaves the resolution of this one as it was.\<close>

lemma filter_after_other:
  assumes "k \<noteq> X"
  shows "fst (getMarketInfo ob' X
            ((snd (getMarketInfo ob k s))\<lparr> alertedOutcomes := A, stats := st, alerts := al,
                                           emitted := em \<rparr>))
         = fst (getMarketInfo ob' X s)"
  using getMarketInfo_other [of X k ob s] assms
  by (intro getMarketInfo_cong) simp

lemma quietFor_frame:
  assumes "alertedOutcomes s' = alertedOutcomes s" "marketCache s' = marketCache s"
    "alerts s' = alerts s"
  shows "quietFor Q X s' = quietFor Q X s"
proof -
  have "fst (getMarketInfo ob X s') = fst (getMarketInfo ob X s)" for ob
    using assms(2) by (intro getMarketInfo_cong) simp
  then show ?thesis using assms by (simp add: quietFor_def)
qed

lemma checkAndAlert_quiet:
  assumes ob: "Q ob" and inv: "quietFor Q X s"
  shows "quietFor Q X (stateOf (checkAndAlert cfg ob k s))
     \<and> (\<exists>evs. emitted (stateOf (checkAndAlert cfg ob k s)) = emitted s @ evs
           \<and> newAlertsFor X evs = 0 \<and> alertUpdatesFor X evs = 0)"
proof (cases rule: checkAndAlert_cases [of cfg ob k s])
  case silent
  with inv show ?thesis by (simp add: stateOf_def)
next
  case (update a)
  have "a \<in> set (alerts s)" using update(2) by (auto simp: find_Some_iff)
  moreover have "outcomeId a = k" using update(2) by (rule find_outcome)
  ultimately have ne: "k \<noteq> X" using inv by (auto simp: quietFor_def list_all_iff)
  let ?fresh = "filter isFresh (betsOf (betsByOutcome s) k)"
  let ?s' = "s\<lparr> alerts := updateFirst (\<lambda>a. outcomeId a = k) (refreshAlert ob ?fresh) (alerts s),
                emitted := emitted s @ [AlertUpdate (refreshAlert ob ?fresh a)] \<rparr>"
  have "fst (getMarketInfo ob' X ?s') = fst (getMarketInfo ob' X s)" for ob'
    by (intro getMarketInfo_cong) simp
  then have "quietFor Q X ?s'"
    using inv by (simp add: quietFor_def list_all_updateFirst)
  then show ?thesis
    using update(3) ne \<open>outcomeId a = k\<close> by (simp add: stateOf_def)
next
  case filtered
  let ?s' = "(snd (getMarketInfo ob k s))\<lparr> alertedOutcomes := insert k (alertedOutcomes s) \<rparr>"
  have "quietFor Q X ?s'"
  proof (cases "k = X")
    case True
    then show ?thesis
      using inv by (simp add: quietFor_def getMarketInfo_frame)
  next
    case False
    have "map_of (marketCache ?s') X = map_of (marketCache s) X"
      using False by (simp add: getMarketInfo_other)
    then have "fst (getMarketInfo ob' X ?s') = fst (getMarketInfo ob' X s)" for ob'
      by (rule getMarketInfo_cong)
    then show ?thesis
      using inv by (simp add: quietFor_def getMarketInfo_frame)
  qed
  then show ?thesis
    using filtered(3) by (simp add: stateOf_def getMarketInfo_frame)
next
  case (fires f fs)
  have ne: "k \<noteq> X"
  proof
    assume "k = X"
    then have "shouldFilterMarket (fst (getMarketInfo ob k s))"
      using inv ob fires(1) by (auto simp: quietFor_def)
    with fires(2) show False by simp
  qed
  let ?new = "buildAlert ob k (fst (getMarketInfo ob k s)) f (f # fs)"
  let ?st = "(stats s)\<lparr> alertsTriggered := alertsTriggered (stats s) + 1 \<rparr>"
  let ?s' = "(snd (getMarketInfo ob k s))
           \<lparr> alertedOutcomes := insert k (alertedOutcomes s),
              stats := ?st,
              alerts := pushAlert ?new (alerts s),
              emitted := emitted s @ [NewAlert ?new, Stats ?st] \<rparr>"
  have "map_of (marketCache ?s') X = map_of (marketCache s) X"
    using ne by (simp add: getMarketInfo_other)
  then have "fst (getMarketInfo ob' X ?s') = fst (getMarketInfo ob' X s)" for ob'
    by (rule getMarketInfo_cong)
  moreover have "list_all (\<lambda>a. outcomeId a \<noteq> X) (pushAlert ?new (alerts s))"
    using ne inv by (intro list_all_pushAlert) (simp_all add: quietFor_def)
  ultimately have "quietFor Q X ?s'"
    using inv by (auto simp: quietFor_def)
  then show ?thesis
    using fires(3) ne by (simp add: stateOf_def)
next
  case throws
  have ne: "k \<noteq> X"
  proof
    assume "k = X"
    then have "shouldFilterMarket (fst (getMarketInfo ob k s))"
      using inv ob throws(1) by (auto simp: quietFor_def)
    with throws(2) show False by simp
  qed
  let ?s' = "(snd (getMarketInfo ob k s))
           \<lparr> alertedOutcomes := insert k (alertedOutcomes s),
              stats := (stats s)\<lparr> alertsTriggered := alertsTriggered (stats s) + 1 \<rparr> \<rparr>"
  have "map_of (marketCache ?s') X = map_of (marketCache s) X"
    using ne by (simp add: getMarketInfo_other)
  then have "fst (getMarketInfo ob' X ?s') = fst (getMarketInfo ob' X s)" for ob'
    by (rule getMarketInfo_cong)
  then have "quietFor Q X ?s'"
    using inv by (auto simp: quietFor_def getMarketInfo_frame)
  then show ?thesis
    using throws(3) by (simp add: stateOf_def getMarketInfo_frame)
qed

lemma runCycles_quiet:
  assumes inv: "quietFor Q X s" and obs: "list_all (answersSatisfy Q) chs"
  shows "quietFor Q X (fst (runCycles cfg chs (s, c)))
     \<and> (\<exists>evs. emitted (fst (runCycles cfg chs (s, c))) = emitted s @ evs
           \<and> newAlertsFor X evs = 0 \<and> alertUpdatesFor X evs = 0)"
proof -
  let ?R = "\<lambda>s s'. quietFor Q X s \<longrightarrow>
     quietFor Q X s' \<and> (\<exists>evs. emitted s' = emitted s @ evs
           \<and> newAlertsFor X evs = 0 \<and> alertUpdatesFor X evs = 0)"
  have "?R s (fst (runCycles cfg chs (s, c)))"
  proof (rule runCycles_core_lift [where R = ?R and Q = Q])
    show "?R a c" if ab: "?R a b" and bc: "?R b c" for a b c
    proof
      assume a: "quietFor Q X a"
      with ab obtain e1 where b: "quietFor Q X b" and e1: "emitted b = emitted a @ e1"
        "newAlertsFor X e1 = 0" "alertUpdatesFor X e1 = 0" by blast
      with bc obtain e2 where c: "quietFor Q X c" and e2: "emitted c = emitted b @ e2"
        "newAlertsFor X e2 = 0" "alertUpdatesFor X e2 = 0" by blast
      have "emitted c = emitted a @ (e1 @ e2) \<and> newAlertsFor X (e1 @ e2) = 0
          \<and> alertUpdatesFor X (e1 @ e2) = 0"
        using e1 e2 by simp
      with c show "quietFor Q X c \<and> (\<exists>evs. emitted c = emitted a @ evs
           \<and> newAlertsFor X evs = 0 \<and> alertUpdatesFor X evs = 0)" by blast
    qed
    show "?R t t'" if "alertedOutcomes t' = alertedOutcomes t" "marketCache t' = marketCache t"
      "alerts t' = alerts t" "emitted t' = emitted t" for t t'
      using that quietFor_frame [of t' t Q X] by simp
    show "?R t (stateOf (checkAndAlert cfg ob k t))" if "Q ob" for ob k t
      using checkAndAlert_quiet [of Q ob X t cfg k] that by blast
    show "?R t (t\<lparr> emitted := emitted t @ [Stats (stats t)] \<rparr>)" for t
      using quietFor_frame [of "t\<lparr> emitted := emitted t @ [Stats (stats t)] \<rparr>" t Q X] by simp
    show "list_all (answersSatisfy Q) chs" by (rule obs)
  qed
  with inv show ?thesis by blast
qed

lemma answersSatisfy_True: "list_all (answersSatisfy (\<lambda>ob. True)) chs"
  by (simp add: list_all_iff answersSatisfy_def list.pred_True split: sum.splits)

text \<open>
  Claim C2. Take an outcome with no alert in the alert list. If every observation the
  chain delivers resolves the outcome to a market that the content filter excludes,
  no run of the polling loop emits a \<^verbatim>\<open>newAlert\<close> or an \<^verbatim>\<open>alertUpdate\<close> event of that
  outcome, whatever the number of fresh wallets. When the count reaches the threshold
  and the resolved market is excluded, \<^verbatim>\<open>checkAndAlert\<close> marks the outcome alerted,
  emits nothing and creates no alert. From then on the outcome is excluded for good,
  whatever the outside world answers: \<^verbatim>\<open>checkAndAlert\<close> returns the state unchanged, and
  after any run the outcome is still marked, still without an alert, and no alert
  event of it has been emitted.
\<close>

theorem filtered_market_never_alerts:
  "(list_all (\<lambda>a. outcomeId a \<noteq> X) (alerts s)
      \<and> list_all (answersSatisfy (\<lambda>ob. shouldFilterMarket (fst (getMarketInfo ob X s)))) chs
      \<longrightarrow> (\<exists>evs. emitted (fst (runCycles cfg chs (s, c))) = emitted s @ evs
             \<and> newAlertsFor X evs = 0 \<and> alertUpdatesFor X evs = 0))
   \<and> (X \<notin> alertedOutcomes s
      \<and> freshWalletThreshold cfg \<le> length (filter isFresh (betsOf (betsByOutcome s) X))
      \<and> shouldFilterMarket (fst (getMarketInfo ob X s))
      \<longrightarrow> (\<exists>s'. checkAndAlert cfg ob X s = Inr s' \<and> X \<in> alertedOutcomes s'
             \<and> emitted s' = emitted s \<and> alerts s' = alerts s))
   \<and> (X \<in> alertedOutcomes s \<and> list_all (\<lambda>a. outcomeId a \<noteq> X) (alerts s)
      \<longrightarrow> checkAndAlert cfg ob X s = Inr s
          \<and> X \<in> alertedOutcomes (fst (runCycles cfg chs (s, c)))
          \<and> list_all (\<lambda>a. outcomeId a \<noteq> X) (alerts (fst (runCycles cfg chs (s, c))))
          \<and> (\<exists>evs. emitted (fst (runCycles cfg chs (s, c))) = emitted s @ evs
                \<and> newAlertsFor X evs = 0 \<and> alertUpdatesFor X evs = 0))"
proof -
  have a: "\<exists>evs. emitted (fst (runCycles cfg chs (s, c))) = emitted s @ evs
             \<and> newAlertsFor X evs = 0 \<and> alertUpdatesFor X evs = 0"
    if "list_all (\<lambda>a. outcomeId a \<noteq> X) (alerts s)"
      "list_all (answersSatisfy (\<lambda>ob. shouldFilterMarket (fst (getMarketInfo ob X s)))) chs"
  proof -
    have "quietFor (\<lambda>ob. shouldFilterMarket (fst (getMarketInfo ob X s))) X s"
      using that(1) by (simp add: quietFor_def)
    then show ?thesis
      using runCycles_quiet that(2) by blast
  qed
  have b: "\<exists>s'. checkAndAlert cfg ob X s = Inr s' \<and> X \<in> alertedOutcomes s'
             \<and> emitted s' = emitted s \<and> alerts s' = alerts s"
    if "X \<notin> alertedOutcomes s"
      "freshWalletThreshold cfg \<le> length (filter isFresh (betsOf (betsByOutcome s) X))"
      "shouldFilterMarket (fst (getMarketInfo ob X s))"
    using checkAndAlert_filtered [OF that] by (simp add: getMarketInfo_frame)
  have c: "checkAndAlert cfg ob X s = Inr s
          \<and> X \<in> alertedOutcomes (fst (runCycles cfg chs (s, c)))
          \<and> list_all (\<lambda>a. outcomeId a \<noteq> X) (alerts (fst (runCycles cfg chs (s, c))))
          \<and> (\<exists>evs. emitted (fst (runCycles cfg chs (s, c))) = emitted s @ evs
                \<and> newAlertsFor X evs = 0 \<and> alertUpdatesFor X evs = 0)"
    if h: "X \<in> alertedOutcomes s" "list_all (\<lambda>a. outcomeId a \<noteq> X) (alerts s)"
  proof -
    have "find (\<lambda>a. outcomeId a = X) (alerts s) = None"
      using h(2) by (simp add: find_None_iff list_all_iff)
    then have once: "checkAndAlert cfg ob X s = Inr s"
      using h(1) by (simp add: checkAndAlert_alerted)
    have "quietFor (\<lambda>ob. True) X s"
      using h by (simp add: quietFor_def)
    then have run: "quietFor (\<lambda>ob. True) X (fst (runCycles cfg chs (s, c)))
       \<and> (\<exists>evs. emitted (fst (runCycles cfg chs (s, c))) = emitted s @ evs
           \<and> newAlertsFor X evs = 0 \<and> alertUpdatesFor X evs = 0)"
      using answersSatisfy_True by (rule runCycles_quiet)
    have "X \<in> alertedOutcomes (fst (runCycles cfg chs (s, c)))"
      using runCycles_once [of s cfg chs c X] h(1) by blast
    with once run show ?thesis by (simp add: quietFor_def)
  qed
  from a b c show ?thesis by blast
qed

lemma btc_excluded: "shouldFilterMarket (Some btcInfo)"
  by code_simp

lemma nbsp_excluded: "shouldFilterMarket (Some (btcInfo\<lparr> question := nbspQuestion \<rparr>))"
  by code_simp

lemma nbsp_resolved:
  "marketCache s = []
     \<Longrightarrow> fst (getMarketInfo (nbspWorld t) ''7'' s) = Some (btcInfo\<lparr> question := nbspQuestion \<rparr>)"
  by (simp add: getMarketInfo_def nbspWorld_def marketInfoOf_def btcMarket_def
      btcInfo_def orDefault_def elemAt_def truthy_def nbspQuestion_def units_def)

lemma space_excluded:
  "shouldFilterMarket (Some (btcInfo\<lparr> question := units ''price 5pm'' \<rparr>))"
  by code_simp

lemma btc_resolved:
  "marketCache s = [] \<Longrightarrow> fst (getMarketInfo (btcWorld t) ''7'' s) = Some btcInfo"
  by (simp add: getMarketInfo_def btcWorld_def marketInfoOf_def btcMarket_def
      btcInfo_def orDefault_def elemAt_def truthy_def units_def)

theorem filtered_market_never_alerts_witness:
  "list_all (\<lambda>a. outcomeId a \<noteq> ''7'') (alerts (initialState 0))
   \<and> list_all (answersSatisfy
        (\<lambda>ob. shouldFilterMarket (fst (getMarketInfo ob ''7'' (initialState 0))))) [btcRpc]
   \<and> (\<exists>evs. emitted (fst (runCycles scenarioConfig [btcRpc] (initialState 0, 99))) = evs
          \<and> newAlertsFor ''7'' evs = 0 \<and> alertUpdatesFor ''7'' evs = 0)
   \<and> ''7'' \<notin> alertedOutcomes atThreshold
   \<and> freshWalletThreshold scenarioConfig
        \<le> length (filter isFresh (betsOf (betsByOutcome atThreshold) ''7''))
   \<and> shouldFilterMarket (fst (getMarketInfo (btcWorld 5000) ''7'' atThreshold))
   \<and> (\<exists>s'. checkAndAlert scenarioConfig (btcWorld 5000) ''7'' atThreshold = Inr s'
          \<and> ''7'' \<in> alertedOutcomes s' \<and> emitted s' = [] \<and> alerts s' = [])
   \<and> shouldFilterMarket (fst (getMarketInfo (nbspWorld 5000) ''7'' atThreshold))
   \<and> (\<exists>s'. checkAndAlert scenarioConfig (nbspWorld 5000) ''7'' atThreshold = Inr s'
          \<and> ''7'' \<in> alertedOutcomes s' \<and> emitted s' = [] \<and> alerts s' = [])
   \<and> ''7'' \<in> alertedOutcomes markedQuiet
   \<and> list_all (\<lambda>a. outcomeId a \<noteq> ''7'') (alerts markedQuiet)
   \<and> checkAndAlert scenarioConfig (btcWorld 5000) ''7'' markedQuiet = Inr markedQuiet
   \<and> ''7'' \<in> alertedOutcomes (fst (runCycles scenarioConfig [btcRpc] (markedQuiet, 99)))
   \<and> (\<exists>evs. emitted (fst (runCycles scenarioConfig [btcRpc] (markedQuiet, 99))) = evs
          \<and> newAlertsFor ''7'' evs = 0 \<and> alertUpdatesFor ''7'' evs = 0)"
proof -
  have filtered: "shouldFilterMarket (fst (getMarketInfo (btcWorld t) ''7'' (initialState 0)))" for t
    by (simp add: btc_resolved initialState_def btc_excluded)
  have h1: "list_all (\<lambda>a. outcomeId a \<noteq> ''7'') (alerts (initialState 0))"
    by (simp add: initialState_def)
  have h2: "list_all (answersSatisfy
        (\<lambda>ob. shouldFilterMarket (fst (getMarketInfo ob ''7'' (initialState 0))))) [btcRpc]"
    by (simp add: answersSatisfy_def btcRpc_def filtered)
  have h3: "''7'' \<notin> alertedOutcomes atThreshold"
    by (simp add: atThreshold_def initialState_def)
  have h4: "freshWalletThreshold scenarioConfig
        \<le> length (filter isFresh (betsOf (betsByOutcome atThreshold) ''7''))"
    by (simp add: atThreshold_def scenarioConfig_def betsOf_def)
  have h5: "shouldFilterMarket (fst (getMarketInfo (btcWorld 5000) ''7'' atThreshold))"
    by (simp add: btc_resolved atThreshold_def initialState_def btc_excluded)
  note inst = filtered_market_never_alerts
    [of "''7''" "initialState 0" "[btcRpc]" scenarioConfig 99 "btcWorld 5000"]
  have run: "\<exists>evs. emitted (fst (runCycles scenarioConfig [btcRpc] (initialState 0, 99))) = evs
          \<and> newAlertsFor ''7'' evs = 0 \<and> alertUpdatesFor ''7'' evs = 0"
    using inst h1 h2 by (auto simp: initialState_def)
  have "\<exists>s'. checkAndAlert scenarioConfig (btcWorld 5000) ''7'' atThreshold = Inr s'
          \<and> ''7'' \<in> alertedOutcomes s' \<and> emitted s' = emitted atThreshold
          \<and> alerts s' = alerts atThreshold"
    using filtered_market_never_alerts
      [of "''7''" atThreshold "[]" scenarioConfig 0 "btcWorld 5000"] h3 h4 h5 by blast
  then have step: "\<exists>s'. checkAndAlert scenarioConfig (btcWorld 5000) ''7'' atThreshold = Inr s'
          \<and> ''7'' \<in> alertedOutcomes s' \<and> emitted s' = [] \<and> alerts s' = []"
    by (simp add: atThreshold_def initialState_def)
  have h6: "shouldFilterMarket (fst (getMarketInfo (nbspWorld 5000) ''7'' atThreshold))"
    by (simp add: nbsp_resolved atThreshold_def initialState_def nbsp_excluded)
  have "\<exists>s'. checkAndAlert scenarioConfig (nbspWorld 5000) ''7'' atThreshold = Inr s'
          \<and> ''7'' \<in> alertedOutcomes s' \<and> emitted s' = emitted atThreshold
          \<and> alerts s' = alerts atThreshold"
    using filtered_market_never_alerts
      [of "''7''" atThreshold "[]" scenarioConfig 0 "nbspWorld 5000"] h3 h4 h6 by blast
  then have nbsp: "\<exists>s'. checkAndAlert scenarioConfig (nbspWorld 5000) ''7'' atThreshold = Inr s'
          \<and> ''7'' \<in> alertedOutcomes s' \<and> emitted s' = [] \<and> alerts s' = []"
    by (simp add: atThreshold_def initialState_def)
  have m1: "''7'' \<in> alertedOutcomes markedQuiet"
    by (simp add: markedQuiet_def)
  have m2: "list_all (\<lambda>a. outcomeId a \<noteq> ''7'') (alerts markedQuiet)"
    by (simp add: markedQuiet_def initialState_def)
  have m3: "emitted markedQuiet = []"
    by (simp add: markedQuiet_def initialState_def)
  have marked: "checkAndAlert scenarioConfig (btcWorld 5000) ''7'' markedQuiet = Inr markedQuiet
     \<and> ''7'' \<in> alertedOutcomes (fst (runCycles scenarioConfig [btcRpc] (markedQuiet, 99)))
     \<and> (\<exists>evs. emitted (fst (runCycles scenarioConfig [btcRpc] (markedQuiet, 99))) = evs
          \<and> newAlertsFor ''7'' evs = 0 \<and> alertUpdatesFor ''7'' evs = 0)"
    using filtered_market_never_alerts
      [of "''7''" markedQuiet "[btcRpc]" scenarioConfig 99 "btcWorld 5000"] m1 m2
    unfolding m3 by auto
  from h1 h2 run h3 h4 h5 step h6 nbsp m1 m2 marked show ?thesis by blast
qed

end
